theory Spec2Isabelle
  imports Main "HOL-Library.Word"
begin

section \<open>Python values\<close>

text \<open>
  A Python \<open>str\<close> is a sequence of Unicode code points, so it is modelled as a list of
  natural numbers (\<open>len\<close> counts code points, not bytes). A literal of the source is
  written \<open>lit ''...''\<close>.
\<close>

type_synonym str = "nat list"

definition lit :: "string \<Rightarrow> str" where
  "lit s = map of_char s"

datatype error =
    ValueError
  | IndexError
  | KeyError
  | UnicodeEncodeError
  | External string

definition and_then :: "error + 'a \<Rightarrow> ('a \<Rightarrow> error + 'b) \<Rightarrow> error + 'b" where
  "and_then m f = (case m of Inl e \<Rightarrow> Inl e | Inr x \<Rightarrow> f x)"

text \<open>
  The Unicode class of a character that decides \<open>str.isdigit\<close> and \<open>int\<close>:
  \<open>Decimal d\<close> for Numeric_Type=Decimal with value \<open>d\<close>, \<open>Digit_Only\<close> for
  Numeric_Type=Digit (superscripts and the like), \<open>Not_Digit\<close> otherwise.
\<close>

datatype digit_class = Decimal nat | Digit_Only | Not_Digit

text \<open>
  What the code takes from the Python runtime and from its libraries is a parameter of
  the model, so every theorem holds for every behaviour of these parts:
  \<^item> \<open>uni_digit_class\<close>, the digit class of the code points from 256 on (the classes
    of the first 256 are written out below);
  \<^item> \<open>char_isspace\<close>, the characters that \<open>split\<close> and \<open>strip\<close> take for whitespace;
    the upper-case, lower-case and title-case characters, from which \<open>isupper\<close> and
    \<open>islower\<close> are computed; and the case conversions of \<open>str\<close>, which follow the
    Unicode case mappings;
  \<^item> \<open>random.Random\<close>: \<open>Random seed\<close> is the generator state after seeding and
    \<open>randbelow g n\<close> one draw below \<open>n\<close> with the next state;
  \<^item> \<open>hashlib.sha256\<close>, as a function from the bytes to the 256-bit digest;
  \<^item> \<open>Faker\<close>: \<open>faker locale seed method argument\<close> is the value the instance made
    for the locale and seeded with \<open>seed\<close> returns for the provider method, or its
    failure.
\<close>

record 'g pylib =
  uni_digit_class :: "nat \<Rightarrow> digit_class"
  char_isspace :: "nat \<Rightarrow> bool"
  char_isupper :: "nat \<Rightarrow> bool"
  char_islower :: "nat \<Rightarrow> bool"
  char_istitle :: "nat \<Rightarrow> bool"
  str_upper :: "str \<Rightarrow> str"
  str_lower :: "str \<Rightarrow> str"
  str_capitalize :: "str \<Rightarrow> str"
  Random :: "int \<Rightarrow> 'g"
  randbelow :: "'g \<Rightarrow> nat \<Rightarrow> nat \<times> 'g"
  sha256 :: "8 word list \<Rightarrow> 256 word"
  faker :: "str \<Rightarrow> int \<Rightarrow> str \<Rightarrow> str \<Rightarrow> error + str"

subsection \<open>\<open>isupper\<close>, \<open>islower\<close>\<close>

text \<open>
  As CPython computes them: a string of one character has the case of that character;
  otherwise \<open>isupper\<close> asks for no lower-case or title-case character and at least one
  upper-case character, and \<open>islower\<close> for no upper-case or title-case character and
  at least one lower-case character. The empty string has neither.
\<close>

definition str_isupper :: "'g pylib \<Rightarrow> str \<Rightarrow> bool" where
  "str_isupper P s =
     (if length s = 1 then char_isupper P (s ! 0)
      else \<not> list_ex (\<lambda>c. char_islower P c \<or> char_istitle P c) s \<and> list_ex (char_isupper P) s)"

definition str_islower :: "'g pylib \<Rightarrow> str \<Rightarrow> bool" where
  "str_islower P s =
     (if length s = 1 then char_islower P (s ! 0)
      else \<not> list_ex (\<lambda>c. char_isupper P c \<or> char_istitle P c) s \<and> list_ex (char_islower P) s)"

subsection \<open>Indexing, slicing, replace\<close>

text \<open>\<open>xs[i]\<close>: a negative index counts from the end, an index out of range raises.\<close>

definition py_index :: "'a list \<Rightarrow> int \<Rightarrow> error + 'a" where
  "py_index xs i =
     (let n = int (length xs); j = (if i < 0 then i + n else i)
      in if 0 \<le> j \<and> j < n then Inr (xs ! nat j) else Inl IndexError)"

text \<open>A slice bound is clamped into \<open>0..len\<close> after a negative one is shifted by \<open>len\<close>.\<close>

definition slice_bound :: "'a list \<Rightarrow> int \<Rightarrow> nat" where
  "slice_bound xs i =
     (let n = int (length xs) in nat (if i < 0 then max (i + n) 0 else min i n))"

definition py_slice :: "'a list \<Rightarrow> int \<Rightarrow> int \<Rightarrow> 'a list" where
  "py_slice xs a b = take (slice_bound xs b - slice_bound xs a) (drop (slice_bound xs a) xs)"

definition py_slice_to :: "'a list \<Rightarrow> int \<Rightarrow> 'a list" where
  "py_slice_to xs b = take (slice_bound xs b) xs"

definition py_slice_from :: "'a list \<Rightarrow> int \<Rightarrow> 'a list" where
  "py_slice_from xs a = drop (slice_bound xs a) xs"

text \<open>\<open>s.replace(c, "")\<close> for a one-character \<open>c\<close> removes every occurrence of it.\<close>

definition remove_char :: "nat \<Rightarrow> str \<Rightarrow> str" where
  "remove_char c s = filter (\<lambda>x. x \<noteq> c) s"

subsection \<open>Digits: \<open>str(n)\<close>, \<open>f"{n:0wd}"\<close>, \<open>isdigit\<close>, \<open>int(c)\<close>\<close>

fun str_nat :: "nat \<Rightarrow> str" where
  "str_nat n = (if n < 10 then [48 + n] else str_nat (n div 10) @ [48 + n mod 10])"

declare str_nat.simps [simp del]

definition str_int :: "int \<Rightarrow> str" where
  "str_int i = (if i < 0 then 45 # str_nat (nat (- i)) else str_nat (nat i))"

text \<open>The format \<open>0wd\<close> pads with zeros after the sign up to the width \<open>w\<close>.\<close>

definition format_0d :: "nat \<Rightarrow> int \<Rightarrow> str" where
  "format_0d w i =
     (if i < 0 then 45 # replicate (w - 1 - length (str_nat (nat (- i)))) 48 @ str_nat (nat (- i))
      else replicate (w - length (str_nat (nat i))) 48 @ str_nat (nat i))"

text \<open>
  In the first 256 code points the decimal digits are \<open>0\<close> to \<open>9\<close>, and the superscripts
  U+00B2, U+00B3 and U+00B9 are digits without a decimal value.
\<close>

definition digit_class_of :: "'g pylib \<Rightarrow> nat \<Rightarrow> digit_class" where
  "digit_class_of P c =
     (if 48 \<le> c \<and> c \<le> 57 then Decimal (c - 48)
      else if c = 178 \<or> c = 179 \<or> c = 185 then Digit_Only
      else if c < 256 then Not_Digit
      else uni_digit_class P c)"

definition isdigit :: "'g pylib \<Rightarrow> str \<Rightarrow> bool" where
  "isdigit P s = (s \<noteq> [] \<and> list_all (\<lambda>c. digit_class_of P c \<noteq> Not_Digit) s)"

text \<open>\<open>int(c)\<close> of a one-character string: its decimal value, or ValueError.\<close>

definition int_of_char :: "'g pylib \<Rightarrow> nat \<Rightarrow> error + int" where
  "int_of_char P c =
     (case digit_class_of P c of Decimal d \<Rightarrow> Inr (int d) | Digit_Only \<Rightarrow> Inl ValueError
      | Not_Digit \<Rightarrow> Inl ValueError)"

text \<open>\<open>sum(f(i) for i in range(n))\<close>, the terms evaluated from the left; the first that
  raises ends the sum.\<close>

fun sum_gen :: "(nat \<Rightarrow> error + int) \<Rightarrow> nat list \<Rightarrow> error + int" where
  "sum_gen f [] = Inr 0"
| "sum_gen f (i # is) = and_then (f i) (\<lambda>x. and_then (sum_gen f is) (\<lambda>s. Inr (x + s)))"

text \<open>\<open>sum(int(s[i]) * weights[i] for i in range(n))\<close>\<close>

definition digit_weight_sum :: "'g pylib \<Rightarrow> str \<Rightarrow> int list \<Rightarrow> nat \<Rightarrow> error + int" where
  "digit_weight_sum P s weights n =
     sum_gen (\<lambda>i. and_then (py_index s (int i)) (\<lambda>c.
                 and_then (int_of_char P c) (\<lambda>d.
                 and_then (py_index weights (int i)) (\<lambda>w. Inr (d * w))))) [0..<n]"

text \<open>\<open>sum(digits[i] * weights[i] for i in range(n))\<close> on a list of integers.\<close>

definition int_weight_sum :: "int list \<Rightarrow> int list \<Rightarrow> nat \<Rightarrow> error + int" where
  "int_weight_sum digits weights n =
     sum_gen (\<lambda>i. and_then (py_index digits (int i)) (\<lambda>d.
                 and_then (py_index weights (int i)) (\<lambda>w. Inr (d * w)))) [0..<n]"

subsection \<open>\<open>random.Random\<close>\<close>

text \<open>
  \<open>randint(a, b)\<close> is \<open>a + randbelow(b - a + 1)\<close>. The draw is reduced modulo the
  width, so the result lies in \<open>a..b\<close> for every \<open>randbelow\<close>; the source calls it with
  constants \<open>a \<le> b\<close> only.
\<close>

definition randint :: "'g pylib \<Rightarrow> 'g \<Rightarrow> int \<Rightarrow> int \<Rightarrow> int \<times> 'g" where
  "randint P g a b =
     (let n = nat (b - a + 1); (r, g') = randbelow P g n in (a + int (r mod n), g'))"

text \<open>\<open>[rng.randint(0, 9) for _ in range(n)]\<close>\<close>

fun draw_digits :: "'g pylib \<Rightarrow> 'g \<Rightarrow> nat \<Rightarrow> int list \<times> 'g" where
  "draw_digits P g 0 = ([], g)"
| "draw_digits P g (Suc n) =
     (let (d, g') = randint P g 0 9; (ds, g'') = draw_digits P g' n in (d # ds, g''))"

section \<open>Identifier generators and validators\<close>

definition PESEL_WEIGHTS :: "int list" where
  "PESEL_WEIGHTS = [1, 3, 7, 9, 1, 3, 7, 9, 1, 3]"

definition NIP_WEIGHTS :: "int list" where
  "NIP_WEIGHTS = [6, 5, 7, 2, 3, 4, 5, 6, 7]"

definition REGON_9_WEIGHTS :: "int list" where
  "REGON_9_WEIGHTS = [8, 9, 2, 3, 4, 5, 6, 7]"

definition REGON_14_WEIGHTS :: "int list" where
  "REGON_14_WEIGHTS = [2, 4, 8, 5, 0, 9, 7, 3, 6, 1, 2, 4, 8]"

definition generate_pesel :: "'g pylib \<Rightarrow> int \<Rightarrow> error + str" where
  "generate_pesel P seed =
     (let rng = Random P seed;
          (year, rng) = randint P rng 50 99;
          (month, rng) = randint P rng 1 12;
          (day, rng) = randint P rng 1 28;
          (serial, rng) = randint P rng 0 999;
          (gender, rng) = randint P rng 0 9;
          pesel_10 = format_0d 2 year @ format_0d 2 month @ format_0d 2 day
                       @ format_0d 3 serial @ str_int gender
      in and_then (digit_weight_sum P pesel_10 PESEL_WEIGHTS 10) (\<lambda>checksum.
           let control_digit = (10 - checksum mod 10) mod 10
           in Inr (pesel_10 @ str_int control_digit)))"

text \<open>
  The two stages of \<open>generate_nip\<close> before the rendering: the nine digits drawn, and the
  digits and control digit after the correction of a control value of 10.
\<close>

definition nip_draw :: "'g pylib \<Rightarrow> int \<Rightarrow> int list" where
  "nip_draw P seed = fst (draw_digits P (Random P seed) 9)"

definition nip_control :: "int list \<Rightarrow> error + int" where
  "nip_control nip_9 =
     and_then (int_weight_sum nip_9 NIP_WEIGHTS 9) (\<lambda>checksum. Inr (checksum mod 11))"

definition nip_repair :: "int list \<Rightarrow> error + int list \<times> int" where
  "nip_repair nip_9 =
     and_then (nip_control nip_9) (\<lambda>control_digit.
       if control_digit = 10 then
         and_then (py_index nip_9 8) (\<lambda>d8.
           let nip_9 = nip_9[8 := (d8 + 1) mod 10]
           in and_then (nip_control nip_9) (\<lambda>control_digit.
                if control_digit = 10 then Inr (nip_9, 0) else Inr (nip_9, control_digit)))
       else Inr (nip_9, control_digit))"

definition generate_nip :: "'g pylib \<Rightarrow> int \<Rightarrow> bool \<Rightarrow> error + str" where
  "generate_nip P seed formatted =
     and_then (nip_repair (nip_draw P seed)) (\<lambda>(nip_9, control_digit).
       let nip_str = concat (map str_int (nip_9 @ [control_digit]))
       in if formatted then
            Inr (py_slice_to nip_str 3 @ lit ''-'' @ py_slice nip_str 3 6 @ lit ''-''
                   @ py_slice nip_str 6 8 @ lit ''-'' @ py_slice nip_str 8 10)
          else Inr nip_str)"

definition generate_regon :: "'g pylib \<Rightarrow> int \<Rightarrow> int \<Rightarrow> error + str" where
  "generate_regon P seed len =
     (if len \<noteq> 9 \<and> len \<noteq> 14 then Inl ValueError
      else
        let rng = Random P seed;
            weights = (if len = 9 then REGON_9_WEIGHTS else REGON_14_WEIGHTS);
            digits_count = nat (len - 1);
            (digits, rng) = draw_digits P rng digits_count
        in and_then (int_weight_sum digits weights digits_count) (\<lambda>checksum.
             let control_digit = checksum mod 11;
                 control_digit = (if control_digit = 10 then 0 else control_digit)
             in Inr (concat (map str_int digits) @ str_int control_digit)))"

definition validate_pesel :: "'g pylib \<Rightarrow> str \<Rightarrow> error + bool" where
  "validate_pesel P pesel =
     (let pesel_clean = remove_char 45 (remove_char 32 pesel)
      in if length pesel_clean \<noteq> 11 \<or> \<not> isdigit P pesel_clean then Inr False
         else and_then (digit_weight_sum P pesel_clean PESEL_WEIGHTS 10) (\<lambda>checksum.
                let control = (10 - checksum mod 10) mod 10
                in and_then (py_index pesel_clean 10) (\<lambda>c.
                   and_then (int_of_char P c) (\<lambda>d. Inr (control = d)))))"

definition validate_nip :: "'g pylib \<Rightarrow> str \<Rightarrow> error + bool" where
  "validate_nip P nip =
     (let nip_clean = remove_char 32 (remove_char 45 nip)
      in if length nip_clean \<noteq> 10 \<or> \<not> isdigit P nip_clean then Inr False
         else and_then (digit_weight_sum P nip_clean NIP_WEIGHTS 9) (\<lambda>checksum.
                let control = checksum mod 11
                in if control \<noteq> 10 then
                     and_then (py_index nip_clean 9) (\<lambda>c.
                     and_then (int_of_char P c) (\<lambda>d. Inr (control = d)))
                   else Inr False))"

definition validate_regon :: "'g pylib \<Rightarrow> str \<Rightarrow> error + bool" where
  "validate_regon P regon =
     (let regon_clean = remove_char 45 (remove_char 32 regon)
      in if \<not> isdigit P regon_clean then Inr False
         else if length regon_clean \<noteq> 9 \<and> length regon_clean \<noteq> 14 then Inr False
         else
           let weights = (if length regon_clean = 9 then REGON_9_WEIGHTS
                          else REGON_14_WEIGHTS)
           in and_then (digit_weight_sum P regon_clean weights (length weights)) (\<lambda>checksum.
                let control = checksum mod 11;
                    control = (if control = 10 then 0 else control)
                in and_then (py_index regon_clean (- 1)) (\<lambda>c.
                   and_then (int_of_char P c) (\<lambda>d. Inr (control = d)))))"

section \<open>The pseudonymizer\<close>

subsection \<open>Data\<close>

text \<open>
  \<open>RecognizerResult\<close> is the detector's result, \<open>Replacement\<close> and
  \<open>PseudonymizationResult\<close> are the dataclasses of the module; the fields of the first
  two carry the prefixes \<open>res_\<close> and \<open>rep_\<close>, and \<open>locale\<close> is written
  \<open>locale_name\<close>. The score is only compared, so its type is any
  linear order. \<open>Pseudonymizer\<close> holds what the constructor stores; \<open>analyzer\<close> is
  the detector's \<open>analyze(text, language)\<close>.
\<close>

record 's RecognizerResult =
  res_entity_type :: str
  res_start :: int
  res_end :: int
  res_score :: 's

record 's Replacement =
  rep_start :: int
  rep_end :: int
  rep_original :: str
  rep_replacement :: str
  rep_entity_type :: str
  rep_score :: 's

record 's PseudonymizationResult =
  original_text :: str
  pseudonymized_text :: str
  replacements :: "'s Replacement list"

definition entities_found :: "'s PseudonymizationResult \<Rightarrow> nat" where
  "entities_found r = length (replacements r)"

definition entity_types :: "'s PseudonymizationResult \<Rightarrow> str set" where
  "entity_types r = set (map rep_entity_type (replacements r))"

record 's Pseudonymizer =
  language :: str
  salt :: str
  locale_name :: str
  analyzer :: "str \<Rightarrow> str \<Rightarrow> error + 's RecognizerResult list"

definition CASE_SENSITIVE_ENTITIES :: "str set" where
  "CASE_SENSITIVE_ENTITIES = {lit ''PERSON'', lit ''ORGANIZATION'', lit ''LOCATION''}"

subsection \<open>\<open>split\<close>, \<open>strip\<close>, \<open>join\<close>, \<open>sorted\<close>\<close>

text \<open>\<open>s.split()\<close>: the maximal runs of characters that are not whitespace.\<close>

fun split_acc :: "(nat \<Rightarrow> bool) \<Rightarrow> str \<Rightarrow> str \<Rightarrow> str list" where
  "split_acc sp cur [] = (if cur = [] then [] else [cur])"
| "split_acc sp cur (c # cs) =
     (if sp c then (if cur = [] then split_acc sp [] cs else cur # split_acc sp [] cs)
      else split_acc sp (cur @ [c]) cs)"

definition split :: "'g pylib \<Rightarrow> str \<Rightarrow> str list" where
  "split P s = split_acc (char_isspace P) [] s"

definition strip :: "'g pylib \<Rightarrow> str \<Rightarrow> str" where
  "strip P s = rev (dropWhile (char_isspace P) (rev (dropWhile (char_isspace P) s)))"

fun join :: "str \<Rightarrow> str list \<Rightarrow> str" where
  "join sep [] = []"
| "join sep [x] = x"
| "join sep (x # y # ys) = x @ sep @ join sep (y # ys)"

text \<open>
  \<open>sorted(xs, key=f, reverse=True)\<close>: descending by key, and stable (elements with
  equal keys keep their order in \<open>xs\<close>).
\<close>

fun insort_desc :: "('a \<Rightarrow> 'k::linorder) \<Rightarrow> 'a \<Rightarrow> 'a list \<Rightarrow> 'a list" where
  "insort_desc f x [] = [x]"
| "insort_desc f x (y # ys) = (if f y \<le> f x then x # y # ys else y # insort_desc f x ys)"

definition sorted_reverse :: "('a \<Rightarrow> 'k::linorder) \<Rightarrow> 'a list \<Rightarrow> 'a list" where
  "sorted_reverse f xs = foldr (insort_desc f) xs []"

subsection \<open>\<open>_compute_seed\<close>\<close>

text \<open>\<open>data.encode("utf-8")\<close>: a surrogate (or a number that is no code point) raises.\<close>

definition encode_char :: "nat \<Rightarrow> error + 8 word list" where
  "encode_char c =
     (if c < 128 then Inr [of_nat c]
      else if c < 2048 then Inr [of_nat (192 + c div 64), of_nat (128 + c mod 64)]
      else if 55296 \<le> c \<and> c < 57344 then Inl UnicodeEncodeError
      else if c < 65536 then
        Inr [of_nat (224 + c div 4096), of_nat (128 + c div 64 mod 64), of_nat (128 + c mod 64)]
      else if c < 1114112 then
        Inr [of_nat (240 + c div 262144), of_nat (128 + c div 4096 mod 64),
             of_nat (128 + c div 64 mod 64), of_nat (128 + c mod 64)]
      else Inl UnicodeEncodeError)"

fun encode_utf8 :: "str \<Rightarrow> error + 8 word list" where
  "encode_utf8 [] = Inr []"
| "encode_utf8 (c # cs) =
     and_then (encode_char c) (\<lambda>b. and_then (encode_utf8 cs) (\<lambda>bs. Inr (b @ bs)))"

text \<open>\<open>hexdigest()\<close>: the 64 lower-case hexadecimal digits of the digest, the most
  significant first.\<close>

definition hex_char :: "nat \<Rightarrow> nat" where
  "hex_char d = (if d < 10 then 48 + d else 87 + d)"

fun hex_fixed :: "nat \<Rightarrow> nat \<Rightarrow> str" where
  "hex_fixed 0 n = []"
| "hex_fixed (Suc k) n = hex_fixed k (n div 16) @ [hex_char (n mod 16)]"

definition hexdigest :: "256 word \<Rightarrow> str" where
  "hexdigest w = hex_fixed 64 (unat w)"

text \<open>
  \<open>int(s, 16)\<close> on a string of hexadecimal digits, which is all that \<open>hexdigest\<close>
  yields. (Python also accepts a sign, a prefix, underscores and surrounding whitespace;
  such strings are not modelled and are reported as ValueError here.)
\<close>

definition hex_value :: "nat \<Rightarrow> int option" where
  "hex_value c =
     (if 48 \<le> c \<and> c \<le> 57 then Some (int c - 48)
      else if 97 \<le> c \<and> c \<le> 102 then Some (int c - 87)
      else if 65 \<le> c \<and> c \<le> 70 then Some (int c - 55)
      else None)"

fun parse_hex :: "int \<Rightarrow> str \<Rightarrow> error + int" where
  "parse_hex acc [] = Inr acc"
| "parse_hex acc (c # cs) =
     (case hex_value c of None \<Rightarrow> Inl ValueError | Some d \<Rightarrow> parse_hex (acc * 16 + d) cs)"

definition int_base16 :: "str \<Rightarrow> error + int" where
  "int_base16 s = (if s = [] then Inl ValueError else parse_hex 0 s)"

definition compute_seed :: "'g pylib \<Rightarrow> 's Pseudonymizer \<Rightarrow> str \<Rightarrow> str \<Rightarrow> error + int" where
  "compute_seed P self value entity_type =
     (let data = salt self @ str_lower P value @ entity_type
      in and_then (encode_utf8 data) (\<lambda>bytes.
           let hash_hex = hexdigest (sha256 P bytes)
           in int_base16 (py_slice_to hash_hex 16)))"

subsection \<open>\<open>_generate_replacement\<close>\<close>

text \<open>
  The dictionary of generators is written as the chain of comparisons that its lookup
  amounts to; only the generator that is found is called. (The construction of the
  Faker instance itself is taken to succeed.)
\<close>

definition generate_replacement ::
    "'g pylib \<Rightarrow> 's Pseudonymizer \<Rightarrow> str \<Rightarrow> str \<Rightarrow> error + str" where
  "generate_replacement P self original entity_type =
     and_then (compute_seed P self original entity_type) (\<lambda>seed.
       let fake = faker P (locale_name self) seed in
       if entity_type = lit ''PERSON'' then fake (lit ''name'') []
       else if entity_type = lit ''ORGANIZATION'' then fake (lit ''company'') []
       else if entity_type = lit ''EMAIL_ADDRESS'' then fake (lit ''email'') []
       else if entity_type = lit ''PHONE_NUMBER'' then fake (lit ''phone_number'') []
       else if entity_type = lit ''PL_PHONE'' then fake (lit ''phone_number'') []
       else if entity_type = lit ''PL_PESEL'' then generate_pesel P seed
       else if entity_type = lit ''PL_NIP'' then generate_nip P seed True
       else if entity_type = lit ''PL_REGON'' then
         generate_regon P seed
           (if length (remove_char 45 (remove_char 32 original)) > 9 then 14 else 9)
       else if entity_type = lit ''PL_ID_CARD'' then
         and_then (fake (lit ''bothify'') (lit ''???######'')) (\<lambda>s. Inr (str_upper P s))
       else if entity_type = lit ''PL_PASSPORT'' then
         and_then (fake (lit ''bothify'') (lit ''??#######'')) (\<lambda>s. Inr (str_upper P s))
       else if entity_type = lit ''PL_POSTAL_CODE'' then fake (lit ''numerify'') (lit ''##-###'')
       else if entity_type = lit ''PL_BANK_ACCOUNT'' then
         fake (lit ''numerify'') (lit ''## #### #### #### #### #### ####'')
       else if entity_type = lit ''IBAN_CODE'' then fake (lit ''iban'') []
       else if entity_type = lit ''CREDIT_CARD'' then fake (lit ''credit_card_number'') []
       else if entity_type = lit ''IP_ADDRESS'' then fake (lit ''ipv4'') []
       else if entity_type = lit ''URL'' then fake (lit ''url'') []
       else if entity_type = lit ''DATE_TIME'' then fake (lit ''date'') []
       else if entity_type = lit ''LOCATION'' then fake (lit ''city'') []
       else Inr (replicate (length original) 42))"

subsection \<open>\<open>_match_casing\<close>\<close>

definition match_casing :: "'g pylib \<Rightarrow> str \<Rightarrow> str \<Rightarrow> str" where
  "match_casing P source replacement =
     (if str_isupper P source then str_upper P replacement
      else
        let words = split P source
        in if words \<noteq> [] \<and>
              list_all (\<lambda>w. str_isupper P [w ! 0] \<and> str_islower P (py_slice_from w 1))
                (filter (\<lambda>w. length w > 1) words)
           then join (lit '' '')
                  (map (\<lambda>w. if w \<noteq> [] then str_capitalize P w else w) (split P replacement))
           else replacement)"

subsection \<open>\<open>_filter_overlapping\<close>\<close>

definition overlaps :: "'s RecognizerResult \<Rightarrow> 's RecognizerResult \<Rightarrow> bool" where
  "overlaps result accepted =
     (\<not> (res_end result \<le> res_start accepted \<or> res_start result \<ge> res_end accepted))"

text \<open>The half-open interval \<open>[start, end)\<close> of a result, as a set of offsets.\<close>

definition span :: "'s RecognizerResult \<Rightarrow> int set" where
  "span r = {res_start r ..< res_end r}"

fun filter_loop ::
    "'s RecognizerResult list \<Rightarrow> 's RecognizerResult list \<Rightarrow> 's RecognizerResult list" where
  "filter_loop filtered [] = filtered"
| "filter_loop filtered (result # rest) =
     (let is_overlapping = list_ex (\<lambda>accepted. overlaps result accepted) filtered
      in if \<not> is_overlapping then filter_loop (filtered @ [result]) rest
         else filter_loop filtered rest)"

definition filter_overlapping ::
    "('s::linorder) RecognizerResult list \<Rightarrow> 's RecognizerResult list" where
  "filter_overlapping results =
     (if results = [] then []
      else let sorted_results = sorted_reverse res_score results
           in filter_loop [] sorted_results)"

subsection \<open>\<open>analyze\<close>, \<open>pseudonymize_with_details\<close>, \<open>pseudonymize\<close>\<close>

definition analyze ::
    "('s::linorder) Pseudonymizer \<Rightarrow> str \<Rightarrow> error + 's RecognizerResult list" where
  "analyze self text =
     and_then (analyzer self text (language self)) (\<lambda>results. Inr (filter_overlapping results))"

text \<open>The first loop: one \<open>Replacement\<close> for each result, the dictionary \<open>mapping\<close>
  remembering the replacement text of each key.\<close>

fun prepare ::
    "'g pylib \<Rightarrow> 's Pseudonymizer \<Rightarrow> str \<Rightarrow> 's RecognizerResult list \<Rightarrow>
     's Replacement list \<times> (str \<times> str \<rightharpoonup> str) \<Rightarrow>
     error + 's Replacement list \<times> (str \<times> str \<rightharpoonup> str)" where
  "prepare P self text [] state = Inr state"
| "prepare P self text (result # rest) (repls, mapping) =
     (let original = py_slice text (res_start result) (res_end result);
          key = (str_lower P (strip P original), res_entity_type result)
      in and_then
           (if mapping key = None then
              and_then (generate_replacement P self original (res_entity_type result))
                (\<lambda>replacement_text.
                   let replacement_text =
                         (if res_entity_type result \<in> CASE_SENSITIVE_ENTITIES
                          then match_casing P original replacement_text
                          else replacement_text)
                   in Inr (mapping(key \<mapsto> replacement_text)))
            else Inr mapping)
           (\<lambda>mapping.
              case mapping key of
                None \<Rightarrow> Inl KeyError
              | Some text_for_key \<Rightarrow>
                  prepare P self text rest
                    (repls @
                       [\<lparr>rep_start = res_start result, rep_end = res_end result,
                         rep_original = original, rep_replacement = text_for_key,
                         rep_entity_type = res_entity_type result,
                         rep_score = res_score result\<rparr>],
                     mapping)))"

text \<open>The second loop: the splices, from the greatest \<open>start\<close> down.\<close>

definition splice :: "'s Replacement \<Rightarrow> str \<Rightarrow> str" where
  "splice repl new_text =
     py_slice_to new_text (rep_start repl) @ rep_replacement repl @ py_slice_from new_text (rep_end repl)"

definition rewrite :: "str \<Rightarrow> 's Replacement list \<Rightarrow> str" where
  "rewrite text repls = fold splice (sorted_reverse rep_start repls) text"

definition pseudonymize_with_details ::
    "'g pylib \<Rightarrow> ('s::linorder) Pseudonymizer \<Rightarrow> str \<Rightarrow> error + 's PseudonymizationResult" where
  "pseudonymize_with_details P self text =
     and_then (analyze self text) (\<lambda>results.
     and_then (prepare P self text results ([], Map.empty)) (\<lambda>(repls, mapping).
       Inr \<lparr>original_text = text, pseudonymized_text = rewrite text repls,
            replacements = repls\<rparr>))"

definition pseudonymize :: "'g pylib \<Rightarrow> ('s::linorder) Pseudonymizer \<Rightarrow> str \<Rightarrow> error + str" where
  "pseudonymize P self text =
     and_then (pseudonymize_with_details P self text) (\<lambda>r. Inr (pseudonymized_text r))"

section \<open>A concrete runtime\<close>

text \<open>
  A small runtime on which the model can be evaluated: the character classes and the
  string methods as they are on ASCII text, a generator that replays the decimal digits of the seed (the least
  significant first), a digest whose first 64 bits are the length of the message, and a
  Faker that answers with the name of the method. \<open>demo_self\<close> is a pseudonymizer whose
  detector returns the detections it is given, whatever the text.
\<close>

definition demo_isspace :: "nat \<Rightarrow> bool" where
  "demo_isspace c = ((9 \<le> c \<and> c \<le> 13) \<or> (28 \<le> c \<and> c \<le> 32))"

definition demo_upper :: "str \<Rightarrow> str" where
  "demo_upper s = map (\<lambda>c. if 97 \<le> c \<and> c \<le> 122 then c - 32 else c) s"

definition demo_lower :: "str \<Rightarrow> str" where
  "demo_lower s = map (\<lambda>c. if 65 \<le> c \<and> c \<le> 90 then c + 32 else c) s"

definition demo_capitalize :: "str \<Rightarrow> str" where
  "demo_capitalize s = (case s of [] \<Rightarrow> [] | c # cs \<Rightarrow> demo_upper [c] @ demo_lower cs)"

fun decimal_digits :: "nat \<Rightarrow> nat \<Rightarrow> nat list" where
  "decimal_digits 0 n = []"
| "decimal_digits (Suc k) n = n mod 10 # decimal_digits k (n div 10)"

definition demo_randbelow :: "nat list \<Rightarrow> nat \<Rightarrow> nat \<times> nat list" where
  "demo_randbelow g n = (case g of [] \<Rightarrow> (0, []) | x # xs \<Rightarrow> (x, xs))"

definition demo_lib :: "nat list pylib" where
  "demo_lib =
     \<lparr>uni_digit_class = (\<lambda>c. Not_Digit),
      char_isspace = demo_isspace,
      char_isupper = (\<lambda>c. 65 \<le> c \<and> c \<le> 90),
      char_islower = (\<lambda>c. 97 \<le> c \<and> c \<le> 122),
      char_istitle = (\<lambda>c. False),
      str_upper = demo_upper,
      str_lower = demo_lower,
      str_capitalize = demo_capitalize,
      Random = (\<lambda>seed. decimal_digits 16 (nat \<bar>seed\<bar>)),
      randbelow = demo_randbelow,
      sha256 = (\<lambda>bytes. push_bit 192 (of_nat (length bytes)) + 1),
      faker = (\<lambda>loc seed method argument. Inr method)\<rparr>"

definition demo_detection :: "string \<Rightarrow> int \<Rightarrow> int \<Rightarrow> nat \<Rightarrow> nat RecognizerResult" where
  "demo_detection category s e sc =
     \<lparr>res_entity_type = lit category, res_start = s, res_end = e, res_score = sc\<rparr>"

definition demo_self :: "nat RecognizerResult list \<Rightarrow> nat Pseudonymizer" where
  "demo_self detections =
     \<lparr>language = lit ''pl'', salt = lit ''salt'', locale_name = lit ''pl_PL'',
      analyzer = (\<lambda>text lang. Inr detections)\<rparr>"

section \<open>Auxiliary notions of the proofs\<close>

text \<open>The key under which \<open>pseudonymize_with_details\<close> stores the replacement text of
  a \<open>Replacement\<close>: its original, stripped and lower-cased, with its entity type.\<close>

definition replacement_key :: "'g pylib \<Rightarrow> 's Replacement \<Rightarrow> str \<times> str" where
  "replacement_key P r = (str_lower P (strip P (rep_original r)), rep_entity_type r)"

text \<open>The weighted sum as a plain sum, the string of a list of digits, and the lists
  whose elements are digits.\<close>

definition wsum :: "int list \<Rightarrow> int list \<Rightarrow> nat \<Rightarrow> int" where
  "wsum ds ws n = (\<Sum>i\<leftarrow>[0..<n]. ds ! i * ws ! i)"

definition digit_str :: "int list \<Rightarrow> str" where
  "digit_str ds = map (\<lambda>d. 48 + nat d) ds"

definition is_digits :: "int list \<Rightarrow> bool" where
  "is_digits ds = list_all (\<lambda>d. 0 \<le> d \<and> d \<le> 9) ds"


text \<open>The \<open>Replacement\<close> that the first loop appends for a detection, given the
  replacement text.\<close>

definition of_detection :: "str \<Rightarrow> 's RecognizerResult \<Rightarrow> str \<Rightarrow> 's Replacement" where
  "of_detection text d t =
     \<lparr>rep_start = res_start d, rep_end = res_end d,
      rep_original = py_slice text (res_start d) (res_end d), rep_replacement = t,
      rep_entity_type = res_entity_type d, rep_score = res_score d\<rparr>"

section \<open>Verification\<close>

subsection \<open>Digits, sums and draws\<close>

lemma and_then_Inr [simp]: "and_then (Inr x) f = f x"
  by (simp add: and_then_def)

lemma and_then_Inl [simp]: "and_then (Inl e) f = Inl e"
  by (simp add: and_then_def)

lemma py_index_nat: "i < length xs \<Longrightarrow> py_index xs (int i) = Inr (xs ! i)"
  by (simp add: py_index_def)

lemma sum_gen_Inr:
  "(\<And>i. i \<in> set is \<Longrightarrow> f i = Inr (g i)) \<Longrightarrow> sum_gen f is = Inr (sum_list (map g is))"
  by (induction "is") simp_all

lemma int_weight_sum_eq:
  "n \<le> length ds \<Longrightarrow> n \<le> length ws \<Longrightarrow> int_weight_sum ds ws n = Inr (wsum ds ws n)"
  unfolding int_weight_sum_def wsum_def
  by (rule sum_gen_Inr) (simp add: py_index_nat)

lemma int_of_char_digit: "0 \<le> d \<Longrightarrow> d \<le> 9 \<Longrightarrow> int_of_char P (48 + nat d) = Inr d"
  by (simp add: int_of_char_def digit_class_of_def)

lemma digit_weight_sum_eq:
  assumes "n \<le> length ds" "n \<le> length ws" "is_digits ds"
  shows "digit_weight_sum P (digit_str ds @ rest) ws n = Inr (wsum ds ws n)"
  unfolding digit_weight_sum_def wsum_def
proof (rule sum_gen_Inr)
  fix i assume "i \<in> set [0..<n]"
  then have i: "i < length ds" "i < length ws" using assms by auto
  then have d: "0 \<le> ds ! i" "ds ! i \<le> 9"
    using assms(3) by (auto simp: is_digits_def list_all_length)
  have "(digit_str ds @ rest) ! i = 48 + nat (ds ! i)"
    using i by (simp add: digit_str_def nth_append)
  moreover have "i < length (digit_str ds @ rest)" using i by (simp add: digit_str_def)
  ultimately show "and_then (py_index (digit_str ds @ rest) (int i)) (\<lambda>c.
                 and_then (int_of_char P c) (\<lambda>d.
                 and_then (py_index ws (int i)) (\<lambda>w. Inr (d * w)))) = Inr (ds ! i * ws ! i)"
    using i d by (simp add: py_index_nat int_of_char_digit)
qed

lemma str_int_digit: "0 \<le> d \<Longrightarrow> d \<le> 9 \<Longrightarrow> str_int d = [48 + nat d]"
  by (simp add: str_int_def str_nat.simps)

lemma concat_str_int: "is_digits ds \<Longrightarrow> concat (map str_int ds) = digit_str ds"
  by (induction ds) (simp_all add: is_digits_def digit_str_def str_int_digit)

lemma str_nat_1: "n < 10 \<Longrightarrow> str_nat n = [48 + n]"
  by (simp add: str_nat.simps)

lemma str_nat_2: "10 \<le> n \<Longrightarrow> n < 100 \<Longrightarrow> str_nat n = [48 + n div 10, 48 + n mod 10]"
  by (subst str_nat.simps) (simp add: str_nat_1)

lemma str_nat_3: "100 \<le> n \<Longrightarrow> n < 1000 \<Longrightarrow> str_nat n = [48 + n div 100, 48 + n div 10 mod 10, 48 + n mod 10]"
  by (subst str_nat.simps) (simp add: str_nat_2 div_mult2_eq [symmetric])

lemma format_2: "0 \<le> i \<Longrightarrow> i < 100 \<Longrightarrow> format_0d 2 i = digit_str [i div 10, i mod 10]"
  apply (cases "i < 10")
   apply (simp add: format_0d_def str_nat_1 digit_str_def)
  apply (simp add: format_0d_def str_nat_2 digit_str_def nat_div_distrib nat_mod_distrib)
  done

lemma format_3: "0 \<le> i \<Longrightarrow> i < 1000 \<Longrightarrow> format_0d 3 i = digit_str [i div 100, i div 10 mod 10, i mod 10]"
  apply (cases "i < 10")
   apply (simp add: format_0d_def str_nat_1 digit_str_def numeral_2_eq_2)
  apply (cases "i < 100")
   apply (simp add: format_0d_def str_nat_2 digit_str_def nat_div_distrib nat_mod_distrib)
  apply (simp add: format_0d_def str_nat_3 digit_str_def nat_div_distrib nat_mod_distrib)
  done

lemma randint_range:
  "a \<le> b \<Longrightarrow> a \<le> fst (randint P g a b) \<and> fst (randint P g a b) \<le> b"
proof -
  assume ab: "a \<le> b"
  obtain r g' where r: "randbelow P g (nat (b - a + 1)) = (r, g')"
    by (cases "randbelow P g (nat (b - a + 1))")
  have "r mod nat (b - a + 1) < nat (b - a + 1)" using ab by simp
  then have "int (r mod nat (b - a + 1)) < b - a + 1" using ab by linarith
  then show ?thesis using r by (simp add: randint_def Let_def)
qed

lemma draw_digits_length: "length (fst (draw_digits P g n)) = n"
  by (induction n arbitrary: g) (simp_all add: Let_def split_beta)

lemma draw_digits_range: "is_digits (fst (draw_digits P g n))"
proof (induction n arbitrary: g)
  case 0
  then show ?case by (simp add: is_digits_def)
next
  case (Suc n)
  obtain d g' where r: "randint P g 0 9 = (d, g')" by (cases "randint P g 0 9")
  obtain ds g'' where ds: "draw_digits P g' n = (ds, g'')" by (cases "draw_digits P g' n")
  have "0 \<le> d \<and> d \<le> 9" using randint_range [of 0 9 P g] r by simp
  moreover have "is_digits ds" using Suc [of g'] ds by simp
  ultimately show ?case using r ds by (simp add: is_digits_def)
qed

subsection \<open>PESEL\<close>

lemma digit_str_append: "digit_str (xs @ ys) = digit_str xs @ digit_str ys"
  by (simp add: digit_str_def)

lemma is_digits_append: "is_digits (xs @ ys) = (is_digits xs \<and> is_digits ys)"
  by (simp add: is_digits_def)

lemma length_digit_str: "length (digit_str ds) = length ds"
  by (simp add: digit_str_def)

lemma remove_char_digit_str:
  "is_digits ds \<Longrightarrow> c < 48 \<Longrightarrow> remove_char c (digit_str ds) = digit_str ds"
  by (auto simp: remove_char_def digit_str_def is_digits_def list_all_iff filter_id_conv)

lemma isdigit_digit_str: "is_digits ds \<Longrightarrow> ds \<noteq> [] \<Longrightarrow> isdigit P (digit_str ds)"
  by (auto simp: isdigit_def digit_str_def is_digits_def list_all_iff digit_class_of_def)

lemma py_index_last_digit:
  "length ds = n \<Longrightarrow> py_index (digit_str (ds @ [c])) (int n) = Inr (48 + nat c)"
  by (simp add: py_index_def digit_str_def nth_append)

lemma py_index_minus1_digit:
  "py_index (digit_str (ds @ [c])) (- 1) = Inr (48 + nat c)"
  by (simp add: py_index_def digit_str_def nth_append)

lemma validate_pesel_digits:
  assumes len: "length ds = 10" and dig: "is_digits ds"
    and c: "c = (10 - wsum ds PESEL_WEIGHTS 10 mod 10) mod 10"
  shows "validate_pesel P (digit_str (ds @ [c])) = Inr True"
proof -
  have c09: "0 \<le> c" "c \<le> 9" using c by simp_all
  then have dig': "is_digits (ds @ [c])" using dig by (simp add: is_digits_def)
  have clean: "remove_char 45 (remove_char 32 (digit_str (ds @ [c]))) = digit_str (ds @ [c])"
    using dig' by (simp add: remove_char_digit_str)
  have sum: "digit_weight_sum P (digit_str (ds @ [c])) PESEL_WEIGHTS 10 = Inr (wsum ds PESEL_WEIGHTS 10)"
    unfolding digit_str_append using len dig
    by (intro digit_weight_sum_eq) (simp_all add: PESEL_WEIGHTS_def)
  have idx: "py_index (digit_str (ds @ [c])) 10 = Inr (48 + nat c)"
    using py_index_last_digit [of ds 10 c] len by simp
  have ok: "\<not> (length (digit_str (ds @ [c])) \<noteq> 11 \<or> \<not> isdigit P (digit_str (ds @ [c])))"
    using dig' by (simp add: length_digit_str len isdigit_digit_str)
  have ioc: "int_of_char P (48 + nat c) = Inr c" using c09 by (rule int_of_char_digit)
  show ?thesis
    unfolding validate_pesel_def clean Let_def sum idx ioc and_then_Inr if_not_P [OF ok]
    using c by simp
qed

lemma two_digits: "0 \<le> (x::int) \<Longrightarrow> x \<le> 99 \<Longrightarrow> is_digits [x div 10, x mod 10]"
  unfolding is_digits_def by simp linarith

lemma three_digits: "0 \<le> (x::int) \<Longrightarrow> x \<le> 999 \<Longrightarrow> is_digits [x div 100, x div 10 mod 10, x mod 10]"
  unfolding is_digits_def by simp linarith

lemma generate_pesel_ok:
  "\<exists>ds. length ds = 10 \<and> is_digits ds \<and>
     generate_pesel P seed = Inr (digit_str (ds @ [(10 - wsum ds PESEL_WEIGHTS 10 mod 10) mod 10]))"
proof -
  obtain year g1 where y: "randint P (Random P seed) 50 99 = (year, g1)" by (cases "randint P (Random P seed) 50 99")
  obtain month g2 where m: "randint P g1 1 12 = (month, g2)" by (cases "randint P g1 1 12")
  obtain day g3 where d: "randint P g2 1 28 = (day, g3)" by (cases "randint P g2 1 28")
  obtain serial g4 where s: "randint P g3 0 999 = (serial, g4)" by (cases "randint P g3 0 999")
  obtain gender g5 where g: "randint P g4 0 9 = (gender, g5)" by (cases "randint P g4 0 9")
  have ry: "50 \<le> year" "year \<le> 99" using randint_range [of 50 99 P "Random P seed"] y by simp_all
  have rm: "1 \<le> month" "month \<le> 12" using randint_range [of 1 12 P g1] m by simp_all
  have rd: "1 \<le> day" "day \<le> 28" using randint_range [of 1 28 P g2] d by simp_all
  have rs: "0 \<le> serial" "serial \<le> 999" using randint_range [of 0 999 P g3] s by simp_all
  have rg: "0 \<le> gender" "gender \<le> 9" using randint_range [of 0 9 P g4] g by simp_all
  define ds where "ds = [year div 10, year mod 10, month div 10, month mod 10, day div 10, day mod 10,
     serial div 100, serial div 10 mod 10, serial mod 10, gender]"
  have p10: "format_0d 2 year @ format_0d 2 month @ format_0d 2 day @ format_0d 3 serial @ str_int gender
      = digit_str ds"
    using ry rm rd rs rg
    by (simp add: format_2 format_3 str_int_digit ds_def digit_str_def)
  have len: "length ds = 10" by (simp add: ds_def)
  have dig: "is_digits ds"
    using two_digits [of year] two_digits [of month] two_digits [of day] three_digits [of serial] ry rm rd rs rg
    unfolding ds_def is_digits_def by simp
  have sum: "digit_weight_sum P (digit_str ds) PESEL_WEIGHTS 10 = Inr (wsum ds PESEL_WEIGHTS 10)"
    using digit_weight_sum_eq [of 10 ds PESEL_WEIGHTS P "[]"] len dig by (simp add: PESEL_WEIGHTS_def)
  have "generate_pesel P seed = Inr (digit_str ds @ str_int ((10 - wsum ds PESEL_WEIGHTS 10 mod 10) mod 10))"
    by (simp add: generate_pesel_def y m d s g p10 sum Let_def)
  also have "\<dots> = Inr (digit_str (ds @ [(10 - wsum ds PESEL_WEIGHTS 10 mod 10) mod 10]))"
    by (simp add: digit_str_append str_int_digit digit_str_def)
  finally show ?thesis using len dig by blast
qed

subsection \<open>NIP\<close>

lemma upt9: "[0..<9] = [0,1,2,3,4,5,6,7,8]"
  by code_simp

lemma wsum_nip: "wsum ds NIP_WEIGHTS 9 =
   ds ! 0 * 6 + ds ! 1 * 5 + ds ! 2 * 7 + ds ! 3 * 2 + ds ! 4 * 3 + ds ! 5 * 4 + ds ! 6 * 5 + ds ! 7 * 6 + ds ! 8 * 7"
  by (simp add: wsum_def upt9 NIP_WEIGHTS_def)

lemma wsum_nip_update:
  "length ds = 9 \<Longrightarrow> wsum (ds[8 := v]) NIP_WEIGHTS 9 = wsum ds NIP_WEIGHTS 9 + 7 * (v - ds ! 8)"
  by (simp add: wsum_nip)

lemma nip_control_eq: "length ds = 9 \<Longrightarrow> nip_control ds = Inr (wsum ds NIP_WEIGHTS 9 mod 11)"
  by (simp add: nip_control_def int_weight_sum_eq NIP_WEIGHTS_def)

lemma repair_step:
  fixes k d :: int
  assumes "k mod 11 = 10" "0 \<le> d" "d \<le> 9"
  shows "(7 * ((d + 1) mod 10 - d) = 7 \<or> 7 * ((d + 1) mod 10 - d) = - 63)
       \<and> (k + 7 * ((d + 1) mod 10 - d)) mod 11 \<noteq> 10"
proof (cases "d = 9")
  case True
  then show ?thesis using assms(1) by simp presburger
next
  case False
  then have "(d + 1) mod 10 = d + 1" using assms by simp
  then show ?thesis using assms(1) by simp presburger
qed

lemma is_digits_update: "is_digits ds \<Longrightarrow> 0 \<le> v \<Longrightarrow> v \<le> 9 \<Longrightarrow> is_digits (ds[i := v])"
  unfolding is_digits_def list_all_iff by (auto dest!: set_update_subset_insert [THEN subsetD])

lemma nip_draw_length: "length (nip_draw P seed) = 9"
  by (simp add: nip_draw_def draw_digits_length)

lemma nip_draw_digits: "is_digits (nip_draw P seed)"
  by (simp add: nip_draw_def draw_digits_range)

lemma nip_repair_ok:
  assumes len: "length ds = 9" and dig: "is_digits ds"
  shows "\<exists>ds' c. nip_repair ds = Inr (ds', c) \<and> length ds' = 9 \<and> is_digits ds'
           \<and> c = wsum ds' NIP_WEIGHTS 9 mod 11 \<and> c \<noteq> 10"
proof (cases "wsum ds NIP_WEIGHTS 9 mod 11 = 10")
  case False
  then show ?thesis using len dig by (simp add: nip_repair_def nip_control_eq)
next
  case True
  define ds' where "ds' = ds[8 := (ds ! 8 + 1) mod 10]"
  have d8: "0 \<le> ds ! 8" "ds ! 8 \<le> 9" using dig len by (simp_all add: is_digits_def list_all_length)
  have len': "length ds' = 9" using len by (simp add: ds'_def)
  have dig': "is_digits ds'" unfolding ds'_def by (rule is_digits_update [OF dig]) simp_all
  have "wsum ds' NIP_WEIGHTS 9 = wsum ds NIP_WEIGHTS 9 + 7 * ((ds ! 8 + 1) mod 10 - ds ! 8)"
    unfolding ds'_def using len by (rule wsum_nip_update)
  then have ne: "wsum ds' NIP_WEIGHTS 9 mod 11 \<noteq> 10"
    using repair_step [OF True d8] by simp
  have idx: "py_index ds 8 = Inr (ds ! 8)" using py_index_nat [of 8 ds] len by simp
  have "nip_repair ds = Inr (ds', wsum ds' NIP_WEIGHTS 9 mod 11)"
    using True ne len len'
    by (simp add: nip_repair_def nip_control_eq idx Let_def ds'_def [symmetric])
  then show ?thesis using len' dig' ne by blast
qed

lemma lit_hyphen: "lit ''-'' = [45]"
  by (simp add: lit_def)

lemma remove_char_append: "remove_char c (xs @ ys) = remove_char c xs @ remove_char c ys"
  by (simp add: remove_char_def)

lemma nip_format_parts:
  assumes "length s = 10"
  shows "py_slice_to s 3 @ py_slice s 3 6 @ py_slice s 6 8 @ py_slice s 8 10 = s"
proof -
  have "py_slice_to s 3 = take 3 s" "py_slice s 3 6 = take 3 (drop 3 s)"
    "py_slice s 6 8 = take 2 (drop 6 s)" "py_slice s 8 10 = drop 8 s"
    using assms by (simp_all add: py_slice_to_def py_slice_def slice_bound_def)
  moreover have "take 2 (drop 6 s) @ drop 8 s = drop 6 s"
    using append_take_drop_id [of 2 "drop 6 s"] by simp
  moreover have "take 3 (drop 3 s) @ drop 6 s = drop 3 s"
    using append_take_drop_id [of 3 "drop 3 s"] by simp
  ultimately show ?thesis by simp
qed

lemma remove_char_subset: "set (remove_char c s) \<subseteq> set s"
  by (auto simp: remove_char_def)

lemma remove_char_id: "c \<notin> set s \<Longrightarrow> remove_char c s = s"
  by (auto simp: remove_char_def filter_id_conv)

lemma set_take_drop_subset: "set (take n (drop m s)) \<subseteq> set s"
  by (meson set_drop_subset set_take_subset subset_trans)

lemma remove_char_Cons:
  "remove_char c (x # xs) = (if x = c then remove_char c xs else x # remove_char c xs)"
  by (simp add: remove_char_def)

lemma remove_hyphen_formatted:
  assumes "length s = 10" "45 \<notin> set s"
  shows "remove_char 45 (py_slice_to s 3 @ lit ''-'' @ py_slice s 3 6 @ lit ''-''
                   @ py_slice s 6 8 @ lit ''-'' @ py_slice s 8 10) = s"
proof -
  have a: "45 \<notin> set (py_slice_to s 3)" "45 \<notin> set (py_slice s 3 6)" "45 \<notin> set (py_slice s 6 8)" "45 \<notin> set (py_slice s 8 10)"
    using assms(2) by (auto simp: py_slice_to_def py_slice_def dest: in_set_takeD in_set_dropD)
  have "remove_char 45 (py_slice_to s 3 @ lit ''-'' @ py_slice s 3 6 @ lit ''-''
                   @ py_slice s 6 8 @ lit ''-'' @ py_slice s 8 10) =
        py_slice_to s 3 @ py_slice s 3 6 @ py_slice s 6 8 @ py_slice s 8 10"
    using a by (simp add: remove_char_append remove_char_id lit_hyphen remove_char_Cons)
  then show ?thesis using nip_format_parts [OF assms(1)] by simp
qed

lemma digit_str_no_low: "is_digits ds \<Longrightarrow> c < 48 \<Longrightarrow> c \<notin> set (digit_str ds)"
  by (auto simp: digit_str_def)

lemma validate_nip_digits:
  assumes len: "length ds = 9" and dig: "is_digits ds"
    and c: "c = wsum ds NIP_WEIGHTS 9 mod 11" and ne: "c \<noteq> 10"
    and s: "remove_char 45 s = digit_str (ds @ [c])"
  shows "validate_nip P s = Inr True"
proof -
  have c09: "0 \<le> c" "c \<le> 9" using c ne by (simp, presburger)
  then have dig': "is_digits (ds @ [c])" using dig by (simp add: is_digits_def)
  have clean: "remove_char 32 (remove_char 45 s) = digit_str (ds @ [c])"
    using dig' by (simp add: s remove_char_digit_str)
  have sum: "digit_weight_sum P (digit_str (ds @ [c])) NIP_WEIGHTS 9 = Inr (wsum ds NIP_WEIGHTS 9)"
    unfolding digit_str_append using len dig
    by (intro digit_weight_sum_eq) (simp_all add: NIP_WEIGHTS_def)
  have idx: "py_index (digit_str (ds @ [c])) 9 = Inr (48 + nat c)"
    using py_index_last_digit [of ds 9 c] len by simp
  have ok: "\<not> (length (digit_str (ds @ [c])) \<noteq> 10 \<or> \<not> isdigit P (digit_str (ds @ [c])))"
    using dig' by (simp add: length_digit_str len isdigit_digit_str)
  have ioc: "int_of_char P (48 + nat c) = Inr c" using c09 by (rule int_of_char_digit)
  show ?thesis
    unfolding validate_nip_def clean Let_def sum idx ioc and_then_Inr if_not_P [OF ok]
    using c ne by simp
qed

lemma generate_nip_ok:
  "\<exists>ds c. length ds = 9 \<and> is_digits ds \<and> c = wsum ds NIP_WEIGHTS 9 mod 11 \<and> c \<noteq> 10 \<and>
     generate_nip P seed False = Inr (digit_str (ds @ [c])) \<and>
     (\<exists>s. generate_nip P seed True = Inr s \<and> remove_char 45 s = digit_str (ds @ [c]))"
proof -
  obtain ds c where r: "nip_repair (nip_draw P seed) = Inr (ds, c)" and len: "length ds = 9"
    and dig: "is_digits ds" and c: "c = wsum ds NIP_WEIGHTS 9 mod 11" and ne: "c \<noteq> 10"
    using nip_repair_ok [OF nip_draw_length nip_draw_digits] by blast
  have c09: "0 \<le> c" "c \<le> 9" using c ne by (simp, presburger)
  then have dig': "is_digits (ds @ [c])" using dig by (simp add: is_digits_def)
  have str: "concat (map str_int (ds @ [c])) = digit_str (ds @ [c])"
    using dig' by (rule concat_str_int)
  then have str': "concat (map str_int ds) @ str_int c = digit_str (ds @ [c])" by simp
  have l10: "length (digit_str (ds @ [c])) = 10" using len by (simp add: length_digit_str)
  have no: "45 \<notin> set (digit_str (ds @ [c]))" using dig' by (simp add: digit_str_no_low)
  have "generate_nip P seed False = Inr (digit_str (ds @ [c]))"
    by (simp add: generate_nip_def r str' Let_def)
  moreover have "generate_nip P seed True = Inr (py_slice_to (digit_str (ds @ [c])) 3 @ lit ''-'' @ py_slice (digit_str (ds @ [c])) 3 6 @ lit ''-''
                   @ py_slice (digit_str (ds @ [c])) 6 8 @ lit ''-'' @ py_slice (digit_str (ds @ [c])) 8 10)"
    by (simp add: generate_nip_def r str' Let_def)
  ultimately show ?thesis
    using len dig c ne remove_hyphen_formatted [OF l10 no] by blast
qed

subsection \<open>REGON\<close>

lemma regon_control_range:
  fixes k :: int
  shows "0 \<le> (if k mod 11 = 10 then 0 else k mod 11) \<and> (if k mod 11 = 10 then 0 else k mod 11) \<le> 9"
  by simp presburger

lemma generate_regon_ok:
  assumes "len = 9 \<or> len = 14"
  shows "\<exists>ds c. int (length ds) = len - 1 \<and> is_digits ds \<and>
     c = (if wsum ds (if len = 9 then REGON_9_WEIGHTS else REGON_14_WEIGHTS) (length ds) mod 11 = 10 then 0
          else wsum ds (if len = 9 then REGON_9_WEIGHTS else REGON_14_WEIGHTS) (length ds) mod 11) \<and>
     generate_regon P seed len = Inr (digit_str (ds @ [c]))"
proof -
  define n where "n = nat (len - 1)"
  define w where "w = (if len = 9 then REGON_9_WEIGHTS else REGON_14_WEIGHTS)"
  obtain ds g where d: "draw_digits P (Random P seed) n = (ds, g)"
    by (cases "draw_digits P (Random P seed) n")
  have len: "length ds = n" using draw_digits_length [of P "Random P seed" n] d by simp
  have dig: "is_digits ds" using draw_digits_range [of P "Random P seed" n] d by simp
  have wl: "length w = n" using assms
    by (auto simp: w_def n_def REGON_9_WEIGHTS_def REGON_14_WEIGHTS_def)
  define c where "c = (if wsum ds w n mod 11 = 10 then 0 else wsum ds w n mod 11)"
  have c09: "0 \<le> c" "c \<le> 9" using regon_control_range [of "wsum ds w n"] by (simp_all add: c_def)
  have sum: "int_weight_sum ds w n = Inr (wsum ds w n)"
    using len wl by (simp add: int_weight_sum_eq)
  have "generate_regon P seed len = Inr (concat (map str_int ds) @ str_int c)"
    using assms d sum
    by (auto simp: generate_regon_def Let_def n_def [symmetric] w_def [symmetric] c_def)
  then have "generate_regon P seed len = Inr (digit_str (ds @ [c]))"
    using dig c09 by (simp add: concat_str_int digit_str_append str_int_digit digit_str_def)
  moreover have "int (length ds) = len - 1" using len assms by (auto simp: n_def)
  ultimately show ?thesis using dig
    by (intro exI [of _ ds] exI [of _ c]) (simp add: c_def w_def len)
qed

lemma validate_regon_digits:
  assumes len: "length ds = length w" and dig: "is_digits ds"
    and w: "(length ds = 8 \<and> w = REGON_9_WEIGHTS) \<or> (length ds = 13 \<and> w = REGON_14_WEIGHTS)"
    and c: "c = (if wsum ds w (length ds) mod 11 = 10 then 0 else wsum ds w (length ds) mod 11)"
  shows "validate_regon P (digit_str (ds @ [c])) = Inr True"
proof -
  have c09: "0 \<le> c" "c \<le> 9" using regon_control_range [of "wsum ds w (length ds)"] by (simp_all add: c)
  then have dig': "is_digits (ds @ [c])" using dig by (simp add: is_digits_def)
  have clean: "remove_char 45 (remove_char 32 (digit_str (ds @ [c]))) = digit_str (ds @ [c])"
    using dig' by (simp add: remove_char_digit_str)
  have wsel: "(if length (digit_str (ds @ [c])) = 9 then REGON_9_WEIGHTS else REGON_14_WEIGHTS) = w"
    using w by (auto simp: length_digit_str)
  have sum: "digit_weight_sum P (digit_str (ds @ [c])) w (length w) = Inr (wsum ds w (length w))"
    unfolding digit_str_append using len dig
    by (intro digit_weight_sum_eq) simp_all
  have ok1: "isdigit P (digit_str (ds @ [c]))" using dig' by (simp add: isdigit_digit_str)
  have ok2: "\<not> (length (digit_str (ds @ [c])) \<noteq> 9 \<and> length (digit_str (ds @ [c])) \<noteq> 14)"
    using w by (auto simp: length_digit_str)
  have ioc: "int_of_char P (48 + nat c) = Inr c" using c09 by (rule int_of_char_digit)
  show ?thesis
    unfolding validate_regon_def clean Let_def wsel sum py_index_minus1_digit ioc and_then_Inr
      if_not_P [OF ok2] not_not [THEN iffD2, OF ok1, THEN if_not_P]
    using c len by simp
qed

lemma digit_str_chars: "is_digits ds \<Longrightarrow> list_all (\<lambda>c. 48 \<le> c \<and> c \<le> 57) (digit_str ds)"
  by (auto simp: is_digits_def digit_str_def list_all_iff)

subsection \<open>The generators against the validators\<close>

lemma sum_gen_first_error: "f i = Inl e \<Longrightarrow> sum_gen f (i # is) = Inl e"
  by simp

lemma superscript_sum:
  assumes "0 < n" "0 < m"
  shows "digit_weight_sum P (replicate m 178) ws n = Inl ValueError"
proof -
  have u: "[0..<n] = 0 # [1..<n]" using assms by (simp add: upt_conv_Cons)
  have "py_index (replicate m (178::nat)) (int 0) = Inr 178"
    using assms by (simp add: py_index_def)
  moreover have "int_of_char P 178 = Inl ValueError"
    by (simp add: int_of_char_def digit_class_of_def)
  ultimately show ?thesis
    unfolding digit_weight_sum_def u by (intro sum_gen_first_error) simp
qed

lemma superscript_clean: "remove_char 45 (remove_char 32 (replicate m 178)) = replicate m 178"
  "remove_char 32 (remove_char 45 (replicate m 178)) = replicate m 178"
  by (simp_all add: remove_char_def)

lemma superscript_isdigit: "0 < m \<Longrightarrow> isdigit P (replicate m 178)"
  by (auto simp: isdigit_def list_all_iff digit_class_of_def)

text \<open>
  Claim C7 (the validators never raise). The code guards \<open>int\<close> with \<open>isdigit\<close>,
  which also accepts digits that have no decimal value: on a string of superscript twos
  (U+00B2) of the expected length each validator passes the guard and \<open>int\<close> raises
  ValueError, for every runtime.
\<close>

theorem validators_raise_on_superscript_digits:
  "validate_pesel P (replicate 11 178) = Inl ValueError \<and>
   validate_nip P (replicate 10 178) = Inl ValueError \<and>
   validate_regon P (replicate 9 178) = Inl ValueError"
  by (simp add: validate_pesel_def validate_nip_def validate_regon_def superscript_clean
        superscript_isdigit superscript_sum REGON_9_WEIGHTS_def)

theorem validators_raise_on_superscript_digits_witness:
  "validate_pesel demo_lib (replicate 11 178) = Inl ValueError \<and>
   validate_nip demo_lib (replicate 10 178) = Inl ValueError \<and>
   validate_regon demo_lib (replicate 9 178) = Inl ValueError"
  by (rule validators_raise_on_superscript_digits)

text \<open>
  Claim C1. For every seed (and every random generator) each generator returns an
  identifier, and the validator of its family returns true on it: PESEL, NIP in the
  grouped and in the bare rendering, REGON of length 9 and of length 14.
\<close>

theorem generated_identifiers_validate:
  "(\<exists>p. generate_pesel P seed = Inr p \<and> validate_pesel P p = Inr True) \<and>
   (\<exists>n. generate_nip P seed True = Inr n \<and> validate_nip P n = Inr True) \<and>
   (\<exists>n. generate_nip P seed False = Inr n \<and> validate_nip P n = Inr True) \<and>
   (\<exists>r. generate_regon P seed 9 = Inr r \<and> validate_regon P r = Inr True) \<and>
   (\<exists>r. generate_regon P seed 14 = Inr r \<and> validate_regon P r = Inr True)"
proof (intro conjI)
  show "\<exists>p. generate_pesel P seed = Inr p \<and> validate_pesel P p = Inr True"
    using generate_pesel_ok [of P seed] validate_pesel_digits [of _ _ P] by metis
next
  obtain ds c s where f: "length ds = 9" "is_digits ds" "c = wsum ds NIP_WEIGHTS 9 mod 11" "c \<noteq> 10"
    and u: "generate_nip P seed False = Inr (digit_str (ds @ [c]))"
    and t: "generate_nip P seed True = Inr s" "remove_char 45 s = digit_str (ds @ [c])"
    using generate_nip_ok [of P seed] by blast
  have no: "remove_char 45 (digit_str (ds @ [c])) = digit_str (ds @ [c])"
    using t(2) [symmetric] by (simp add: remove_char_def)
  show "\<exists>n. generate_nip P seed True = Inr n \<and> validate_nip P n = Inr True"
    using t validate_nip_digits [OF f t(2), of P] by blast
  show "\<exists>n. generate_nip P seed False = Inr n \<and> validate_nip P n = Inr True"
    using u validate_nip_digits [OF f no, of P] by blast
next
  obtain ds c where f: "int (length ds) = 9 - 1" "is_digits ds"
    "c = (if wsum ds REGON_9_WEIGHTS (length ds) mod 11 = 10 then 0
          else wsum ds REGON_9_WEIGHTS (length ds) mod 11)"
    "generate_regon P seed 9 = Inr (digit_str (ds @ [c]))"
    using generate_regon_ok [of 9 P seed] by auto
  have "validate_regon P (digit_str (ds @ [c])) = Inr True"
    using f by (intro validate_regon_digits [of ds REGON_9_WEIGHTS]) (simp_all add: REGON_9_WEIGHTS_def)
  then show "\<exists>r. generate_regon P seed 9 = Inr r \<and> validate_regon P r = Inr True"
    using f(4) by simp
next
  obtain ds c where f: "int (length ds) = 14 - 1" "is_digits ds"
    "c = (if wsum ds REGON_14_WEIGHTS (length ds) mod 11 = 10 then 0
          else wsum ds REGON_14_WEIGHTS (length ds) mod 11)"
    "generate_regon P seed 14 = Inr (digit_str (ds @ [c]))"
    using generate_regon_ok [of 14 P seed] by auto
  have "validate_regon P (digit_str (ds @ [c])) = Inr True"
    using f by (intro validate_regon_digits [of ds REGON_14_WEIGHTS]) (simp_all add: REGON_14_WEIGHTS_def)
  then show "\<exists>r. generate_regon P seed 14 = Inr r \<and> validate_regon P r = Inr True"
    using f(4) by simp
qed

theorem generated_identifiers_validate_witness:
  "(\<exists>p. generate_pesel demo_lib 12345 = Inr p \<and> validate_pesel demo_lib p = Inr True) \<and>
   (\<exists>n. generate_nip demo_lib 12345 True = Inr n \<and> validate_nip demo_lib n = Inr True) \<and>
   (\<exists>n. generate_nip demo_lib 12345 False = Inr n \<and> validate_nip demo_lib n = Inr True) \<and>
   (\<exists>r. generate_regon demo_lib 12345 9 = Inr r \<and> validate_regon demo_lib r = Inr True) \<and>
   (\<exists>r. generate_regon demo_lib 12345 14 = Inr r \<and> validate_regon demo_lib r = Inr True)"
  by (rule generated_identifiers_validate)

subsection \<open>The usage error of \<open>generate_regon\<close>\<close>

text \<open>
  Claim C8. \<open>generate_regon\<close> raises ValueError exactly when the length is neither 9
  nor 14. For 9 and 14 it returns a string of that many decimal digits whose last digit
  is the weighted sum of the digits before it (weights of that length) modulo 11, with
  10 replaced by 0.
\<close>

theorem generate_regon_usage:
  "(generate_regon P seed len = Inl ValueError \<longleftrightarrow> len \<noteq> 9 \<and> len \<noteq> 14) \<and>
   (len = 9 \<or> len = 14 \<longrightarrow>
      (\<exists>s k. generate_regon P seed len = Inr s \<and> int (length s) = len \<and>
         list_all (\<lambda>c. 48 \<le> c \<and> c \<le> 57) s \<and>
         digit_weight_sum P s (if len = 9 then REGON_9_WEIGHTS else REGON_14_WEIGHTS)
           (nat (len - 1)) = Inr k \<and>
         and_then (py_index s (- 1)) (int_of_char P)
           = Inr (if k mod 11 = 10 then 0 else k mod 11)))"
proof (cases "len = 9 \<or> len = 14")
  case False
  then show ?thesis by (simp add: generate_regon_def)
next
  case True
  define w where "w = (if len = 9 then REGON_9_WEIGHTS else REGON_14_WEIGHTS)"
  obtain ds c where f: "int (length ds) = len - 1" "is_digits ds"
    "c = (if wsum ds w (length ds) mod 11 = 10 then 0 else wsum ds w (length ds) mod 11)"
    "generate_regon P seed len = Inr (digit_str (ds @ [c]))"
    using generate_regon_ok [OF True, of P seed] unfolding w_def by blast
  have n: "nat (len - 1) = length ds" using f(1) by simp
  have wl: "length w = length ds" using True f(1)
    by (auto simp: w_def REGON_9_WEIGHTS_def REGON_14_WEIGHTS_def)
  have c09: "0 \<le> c" "c \<le> 9"
    using regon_control_range [of "wsum ds w (length ds)"] by (simp_all add: f(3))
  then have dig': "is_digits (ds @ [c])" using f(2) by (simp add: is_digits_def)
  have sum: "digit_weight_sum P (digit_str (ds @ [c])) w (length ds) = Inr (wsum ds w (length ds))"
    unfolding digit_str_append using f(2) wl
    by (intro digit_weight_sum_eq) simp_all
  have last: "and_then (py_index (digit_str (ds @ [c])) (- 1)) (int_of_char P) = Inr c"
    using c09 by (simp add: py_index_minus1_digit int_of_char_digit)
  have "int (length (digit_str (ds @ [c]))) = len" using f(1) by (simp add: length_digit_str)
  moreover have "list_all (\<lambda>c. 48 \<le> c \<and> c \<le> 57) (digit_str (ds @ [c]))"
    using dig' by (rule digit_str_chars)
  ultimately have "\<exists>s k. generate_regon P seed len = Inr s \<and> int (length s) = len \<and>
         list_all (\<lambda>c. 48 \<le> c \<and> c \<le> 57) s \<and>
         digit_weight_sum P s w (nat (len - 1)) = Inr k \<and>
         and_then (py_index s (- 1)) (int_of_char P) = Inr (if k mod 11 = 10 then 0 else k mod 11)"
    using f(4) sum last unfolding n f(3) by blast
  then show ?thesis using True unfolding w_def by auto
qed

theorem generate_regon_usage_witness:
  "generate_regon demo_lib 12345 7 = Inl ValueError \<and>
   (\<exists>s k. generate_regon demo_lib 12345 14 = Inr s \<and> length s = 14 \<and>
         list_all (\<lambda>c. 48 \<le> c \<and> c \<le> 57) s \<and>
         digit_weight_sum demo_lib s REGON_14_WEIGHTS 13 = Inr k \<and>
         and_then (py_index s (- 1)) (int_of_char demo_lib)
           = Inr (if k mod 11 = 10 then 0 else k mod 11))"
  using generate_regon_usage [of demo_lib 12345 7] generate_regon_usage [of demo_lib 12345 14]
  by simp

subsection \<open>The correction step of \<open>generate_nip\<close>\<close>

text \<open>
  Claim C10. In \<open>generate_nip\<close> one correction is enough. When the control value of
  the nine digits drawn is 10, adding 1 modulo 10 to the ninth digit changes the weighted
  sum by 7 or by -63, and the control value of the corrected digits is not 10. So the
  inner branch that would force the control digit to 0 is never taken: the control digit
  returned with the digits is their weighted sum modulo 11, and the last digit of every
  generated NIP equals the weighted sum of its first nine digits modulo 11.
\<close>

theorem nip_single_repair_suffices:
  "\<exists>k. int_weight_sum (nip_draw P seed) NIP_WEIGHTS 9 = Inr k \<and>
     (k mod 11 = 10 \<longrightarrow>
        (\<exists>d8 k'. py_index (nip_draw P seed) 8 = Inr d8 \<and>
           int_weight_sum ((nip_draw P seed)[8 := (d8 + 1) mod 10]) NIP_WEIGHTS 9 = Inr k' \<and>
           (k' - k = 7 \<or> k' - k = - 63) \<and> k' mod 11 \<noteq> 10)) \<and>
     (\<exists>nip_9 c. nip_repair (nip_draw P seed) = Inr (nip_9, c) \<and>
        nip_control nip_9 = Inr c \<and> c \<noteq> 10) \<and>
     (\<exists>s k. generate_nip P seed False = Inr s \<and> length s = 10 \<and>
        digit_weight_sum P s NIP_WEIGHTS 9 = Inr k \<and>
        and_then (py_index s 9) (int_of_char P) = Inr (k mod 11))"
proof -
  let ?ds = "nip_draw P seed"
  let ?k = "wsum ?ds NIP_WEIGHTS 9"
  have len: "length ?ds = 9" by (rule nip_draw_length)
  have dig: "is_digits ?ds" by (rule nip_draw_digits)
  have k: "int_weight_sum ?ds NIP_WEIGHTS 9 = Inr ?k"
    using len by (simp add: int_weight_sum_eq NIP_WEIGHTS_def)
  have step: "\<exists>d8 k'. py_index ?ds 8 = Inr d8 \<and>
           int_weight_sum (?ds[8 := (d8 + 1) mod 10]) NIP_WEIGHTS 9 = Inr k' \<and>
           (k' - ?k = 7 \<or> k' - ?k = - 63) \<and> k' mod 11 \<noteq> 10" if ten: "?k mod 11 = 10"
  proof -
    have d8: "0 \<le> ?ds ! 8" "?ds ! 8 \<le> 9"
      using dig len by (simp_all add: is_digits_def list_all_length)
    let ?ds' = "?ds[8 := (?ds ! 8 + 1) mod 10]"
    have idx: "py_index ?ds 8 = Inr (?ds ! 8)" using py_index_nat [of 8 ?ds] len by simp
    have k': "int_weight_sum ?ds' NIP_WEIGHTS 9 = Inr (wsum ?ds' NIP_WEIGHTS 9)"
      using len by (simp add: int_weight_sum_eq NIP_WEIGHTS_def)
    have upd: "wsum ?ds' NIP_WEIGHTS 9 = ?k + 7 * ((?ds ! 8 + 1) mod 10 - ?ds ! 8)"
      using len by (rule wsum_nip_update)
    have "(wsum ?ds' NIP_WEIGHTS 9 - ?k = 7 \<or> wsum ?ds' NIP_WEIGHTS 9 - ?k = - 63)
        \<and> wsum ?ds' NIP_WEIGHTS 9 mod 11 \<noteq> 10"
      using repair_step [OF ten d8] unfolding upd by simp
    then show ?thesis using idx k' by blast
  qed
  obtain nip_9 c where r: "nip_repair ?ds = Inr (nip_9, c)" and l9: "length nip_9 = 9"
    and d9: "is_digits nip_9" and c: "c = wsum nip_9 NIP_WEIGHTS 9 mod 11" and ne: "c \<noteq> 10"
    using nip_repair_ok [OF len dig] by blast
  have ctl: "nip_control nip_9 = Inr c" using l9 c by (simp add: nip_control_eq)
  obtain ds c' where g: "length ds = 9" "is_digits ds" "c' = wsum ds NIP_WEIGHTS 9 mod 11" "c' \<noteq> 10"
    "generate_nip P seed False = Inr (digit_str (ds @ [c']))"
    using generate_nip_ok [of P seed] by blast
  have c09: "0 \<le> c'" "c' \<le> 9" using g(3,4) by (simp, presburger)
  have sum: "digit_weight_sum P (digit_str (ds @ [c'])) NIP_WEIGHTS 9 = Inr (wsum ds NIP_WEIGHTS 9)"
    unfolding digit_str_append using g(1,2)
    by (intro digit_weight_sum_eq) (simp_all add: NIP_WEIGHTS_def)
  have last: "and_then (py_index (digit_str (ds @ [c'])) 9) (int_of_char P) = Inr c'"
    using py_index_last_digit [of ds 9 c'] g(1) c09 by (simp add: int_of_char_digit)
  have gen: "\<exists>s k. generate_nip P seed False = Inr s \<and> length s = 10 \<and>
        digit_weight_sum P s NIP_WEIGHTS 9 = Inr k \<and>
        and_then (py_index s 9) (int_of_char P) = Inr (k mod 11)"
    using g(5) sum last g(1) unfolding g(3) by (auto simp: length_digit_str)
  show ?thesis using k step r ctl ne gen by blast
qed

lemma decimal_digits_numeral:
  "decimal_digits (numeral k) n = n mod 10 # decimal_digits (pred_numeral k) (n div 10)"
  by (subst numeral_eq_Suc) simp

lemma draw_digits_numeral:
  "draw_digits P g (numeral k) =
     (let (d, g') = randint P g 0 9; (ds, g'') = draw_digits P g' (pred_numeral k) in (d # ds, g''))"
  by (simp add: numeral_eq_Suc)

lemma demo_Random: "Random demo_lib seed = decimal_digits 16 (nat \<bar>seed\<bar>)"
  by (simp add: demo_lib_def)

lemma demo_random: "Random demo_lib 300000000 = [0, 0, 0, 0, 0, 0, 0, 0, 3, 0, 0, 0, 0, 0, 0, 0]"
  by (simp add: demo_Random decimal_digits_numeral)

lemma demo_randint: "randint demo_lib (x # xs) 0 9 = (int (x mod 10), xs)"
  by (simp add: randint_def demo_lib_def demo_randbelow_def)

lemma demo_nip_draw: "nip_draw demo_lib 300000000 = [0, 0, 0, 0, 0, 0, 0, 0, 3]"
  by (simp add: nip_draw_def demo_random draw_digits_numeral demo_randint)

theorem nip_single_repair_suffices_witness:
  "int_weight_sum (nip_draw demo_lib 300000000) NIP_WEIGHTS 9 = Inr 21 \<and> (21 :: int) mod 11 = 10 \<and>
   (\<exists>d8 k'. py_index (nip_draw demo_lib 300000000) 8 = Inr d8 \<and>
       int_weight_sum ((nip_draw demo_lib 300000000)[8 := (d8 + 1) mod 10]) NIP_WEIGHTS 9 = Inr k' \<and>
       (k' - 21 = 7 \<or> k' - 21 = - 63) \<and> k' mod 11 \<noteq> 10)"
proof -
  have e: "int_weight_sum (nip_draw demo_lib 300000000) NIP_WEIGHTS 9 = Inr 21"
    by (simp add: demo_nip_draw int_weight_sum_eq NIP_WEIGHTS_def wsum_nip [unfolded NIP_WEIGHTS_def])
  show ?thesis
    using nip_single_repair_suffices [of demo_lib 300000000] unfolding e by simp
qed

subsection \<open>The overlap resolver\<close>

lemma set_insort_desc: "set (insort_desc f x xs) = insert x (set xs)"
  by (induction xs) auto

lemma set_sorted_reverse: "set (sorted_reverse f xs) = set xs"
  unfolding sorted_reverse_def by (induction xs) (simp_all add: set_insort_desc)

lemma sorted_insort_desc:
  "sorted_wrt (\<lambda>a b. f b \<le> f a) xs \<Longrightarrow> sorted_wrt (\<lambda>a b. f b \<le> f a) (insort_desc f x xs)"
  by (induction xs) (auto simp: set_insort_desc)

lemma sorted_sorted_reverse: "sorted_wrt (\<lambda>a b. f b \<le> f a) (sorted_reverse f xs)"
  unfolding sorted_reverse_def by (induction xs) (simp_all add: sorted_insort_desc)

lemma filter_insort_desc:
  "filter (\<lambda>y. f y = k) (insort_desc f x xs) =
     (if f x = k then x # filter (\<lambda>y. f y = k) xs else filter (\<lambda>y. f y = k) xs)"
  by (induction xs) auto

lemma stable_sorted_reverse:
  "filter (\<lambda>y. f y = k) (sorted_reverse f xs) = filter (\<lambda>y. f y = k) xs"
  unfolding sorted_reverse_def by (induction xs) (simp_all add: filter_insort_desc)

lemma overlaps_sym: "overlaps a b = overlaps b a"
  by (auto simp: overlaps_def)

lemma not_overlaps_disjoint: "\<not> overlaps a b \<Longrightarrow> span a \<inter> span b = {}"
  by (auto simp: overlaps_def span_def)

lemma overlaps_intersect:
  "overlaps a b \<Longrightarrow> res_start a < res_end a \<Longrightarrow> res_start b < res_end b \<Longrightarrow> span a \<inter> span b \<noteq> {}"
proof -
  assume o: "overlaps a b" and a: "res_start a < res_end a" and b: "res_start b < res_end b"
  have "max (res_start a) (res_start b) \<in> span a \<inter> span b"
    using o a b by (auto simp: overlaps_def span_def)
  then show ?thesis by blast
qed

lemma filter_loop_prefix: "\<exists>ys. filter_loop acc xs = acc @ ys \<and> set ys \<subseteq> set xs"
proof (induction xs arbitrary: acc)
  case Nil
  then show ?case by simp
next
  case (Cons x xs)
  show ?case
  proof (cases "list_ex (overlaps x) acc")
    case True
    then show ?thesis using Cons [of acc] by auto
  next
    case False
    obtain ys where "filter_loop (acc @ [x]) xs = (acc @ [x]) @ ys" "set ys \<subseteq> set xs"
      using Cons [of "acc @ [x]"] by blast
    then show ?thesis using False by (intro exI [of _ "x # ys"]) auto
  qed
qed

lemma filter_loop_subset: "set (filter_loop acc xs) \<subseteq> set acc \<union> set xs"
  using filter_loop_prefix [of acc xs] by auto

lemma filter_loop_mono: "set acc \<subseteq> set (filter_loop acc xs)"
  using filter_loop_prefix [of acc xs] by auto

lemma filter_loop_pairwise:
  "sorted_wrt (\<lambda>a b. \<not> overlaps a b) acc \<Longrightarrow>
   sorted_wrt (\<lambda>a b. \<not> overlaps a b) (filter_loop acc xs)"
proof (induction xs arbitrary: acc)
  case Nil
  then show ?case by simp
next
  case (Cons x xs)
  show ?case
  proof (cases "list_ex (overlaps x) acc")
    case True
    then show ?thesis using Cons by simp
  next
    case False
    then have "\<forall>a\<in>set acc. \<not> overlaps a x"
      by (auto simp: list_ex_iff overlaps_sym [of _ x])
    then have "sorted_wrt (\<lambda>a b. \<not> overlaps a b) (acc @ [x])"
      using Cons.prems by (simp add: sorted_wrt_append)
    then show ?thesis using False Cons.IH [of "acc @ [x]"] by simp
  qed
qed

lemma filter_loop_excluded:
  assumes "\<forall>a\<in>set acc. \<forall>x\<in>set xs. f x \<le> f a"
    and "sorted_wrt (\<lambda>a b. f b \<le> f a) xs"
    and "r \<in> set xs" and "r \<notin> set (filter_loop acc xs)"
  shows "\<exists>a\<in>set (filter_loop acc xs). f r \<le> f a \<and> overlaps r a"
  using assms
proof (induction xs arbitrary: acc)
  case Nil
  then show ?case by simp
next
  case (Cons x xs)
  show ?case
  proof (cases "list_ex (overlaps x) acc")
    case True
    note ov = True
    show ?thesis
    proof (cases "r = x")
      case True
      obtain a where a: "a \<in> set acc" "overlaps x a" using ov by (auto simp: list_ex_iff)
      have "f x \<le> f a" using Cons.prems(1) a(1) by simp
      moreover have "a \<in> set (filter_loop acc (x # xs))"
        using filter_loop_mono [of acc "x # xs"] a(1) by blast
      ultimately show ?thesis using a(2) True by blast
    next
      case False
      then have "r \<in> set xs" using Cons.prems(3) by simp
      moreover have "r \<notin> set (filter_loop acc xs)" using Cons.prems(4) ov by simp
      ultimately have "\<exists>a\<in>set (filter_loop acc xs). f r \<le> f a \<and> overlaps r a"
        using Cons.IH [of acc] Cons.prems(1,2) by simp
      then show ?thesis using ov by simp
    qed
  next
    case False
    note nov = False
    have in_res: "x \<in> set (filter_loop (acc @ [x]) xs)"
      using filter_loop_mono [of "acc @ [x]" xs] by simp
    then have "r \<noteq> x" using Cons.prems(4) nov by auto
    then have r: "r \<in> set xs" using Cons.prems(3) by simp
    have "r \<notin> set (filter_loop (acc @ [x]) xs)" using Cons.prems(4) nov by simp
    moreover have "\<forall>a\<in>set (acc @ [x]). \<forall>y\<in>set xs. f y \<le> f a"
      using Cons.prems(1,2) by auto
    ultimately have "\<exists>a\<in>set (filter_loop (acc @ [x]) xs). f r \<le> f a \<and> overlaps r a"
      using Cons.IH [of "acc @ [x]"] Cons.prems(2) r by simp
    then show ?thesis using nov by simp
  qed
qed

lemma filter_overlapping_eq:
  "filter_overlapping results = filter_loop [] (sorted_reverse res_score results)"
  by (simp add: filter_overlapping_def sorted_reverse_def)

text \<open>
  Claim C4, as amended. For every list of detections the resolver returns detections of
  the input whose intervals are pairwise disjoint. It scans the input sorted by
  descending score, equal scores in input order, and a detection that is left out fails
  the test \<open>overlaps\<close> against an accepted detection whose score is at least its own;
  when both spans are non-empty that test says that the two intervals intersect.
\<close>

theorem filter_overlapping_greedy:
  fixes results :: "('s::linorder) RecognizerResult list"
  shows
  "set (filter_overlapping results) \<subseteq> set results \<and>
   (\<forall>i j. i < j \<and> j < length (filter_overlapping results) \<longrightarrow>
      span (filter_overlapping results ! i) \<inter> span (filter_overlapping results ! j) = {}) \<and>
   filter_overlapping results = filter_loop [] (sorted_reverse res_score results) \<and>
   sorted_wrt (\<lambda>a b. res_score b \<le> res_score a) (sorted_reverse res_score results) \<and>
   (\<forall>k. filter (\<lambda>r. res_score r = k) (sorted_reverse res_score results)
        = filter (\<lambda>r. res_score r = k) results) \<and>
   (\<forall>r\<in>set results. r \<notin> set (filter_overlapping results) \<longrightarrow>
      (\<exists>a\<in>set (filter_overlapping results). res_score r \<le> res_score a \<and> overlaps r a \<and>
         (res_start r < res_end r \<and> res_start a < res_end a \<longrightarrow> span r \<inter> span a \<noteq> {})))"
proof (intro conjI)
  let ?srt = "sorted_reverse res_score results"
  show "set (filter_overlapping results) \<subseteq> set results"
    using filter_loop_subset [of "[]" ?srt]
    by (simp add: filter_overlapping_eq set_sorted_reverse)
  have "sorted_wrt (\<lambda>a b. \<not> overlaps a b) (filter_overlapping results)"
    unfolding filter_overlapping_eq by (rule filter_loop_pairwise) simp
  then show "\<forall>i j. i < j \<and> j < length (filter_overlapping results) \<longrightarrow>
      span (filter_overlapping results ! i) \<inter> span (filter_overlapping results ! j) = {}"
    by (auto simp: sorted_wrt_iff_nth_less dest!: not_overlaps_disjoint)
  show "filter_overlapping results = filter_loop [] ?srt" by (rule filter_overlapping_eq)
  show "sorted_wrt (\<lambda>a b. res_score b \<le> res_score a) ?srt" by (rule sorted_sorted_reverse)
  show "\<forall>k. filter (\<lambda>r. res_score r = k) ?srt = filter (\<lambda>r. res_score r = k) results"
    by (simp add: stable_sorted_reverse)
  show "\<forall>r\<in>set results. r \<notin> set (filter_overlapping results) \<longrightarrow>
      (\<exists>a\<in>set (filter_overlapping results). res_score r \<le> res_score a \<and> overlaps r a \<and>
         (res_start r < res_end r \<and> res_start a < res_end a \<longrightarrow> span r \<inter> span a \<noteq> {}))"
  proof (intro ballI impI)
    fix r assume r: "r \<in> set results" "r \<notin> set (filter_overlapping results)"
    have "\<exists>a\<in>set (filter_loop [] ?srt). res_score r \<le> res_score a \<and> overlaps r a"
      using r by (intro filter_loop_excluded)
        (simp_all add: sorted_sorted_reverse set_sorted_reverse filter_overlapping_eq)
    then show "\<exists>a\<in>set (filter_overlapping results). res_score r \<le> res_score a \<and> overlaps r a \<and>
         (res_start r < res_end r \<and> res_start a < res_end a \<longrightarrow> span r \<inter> span a \<noteq> {})"
      unfolding filter_overlapping_eq using overlaps_intersect by blast
  qed
qed

lemma demo_filter:
  "filter_overlapping [demo_detection ''PERSON'' 5 8 2, demo_detection ''LOCATION'' 0 10 3,
       demo_detection ''PERSON'' 20 30 2]
     = [demo_detection ''LOCATION'' 0 10 3, demo_detection ''PERSON'' 20 30 2]"
  by (simp add: filter_overlapping_def sorted_reverse_def overlaps_def demo_detection_def)

theorem filter_overlapping_greedy_witness:
  "demo_detection ''PERSON'' 5 8 2 \<notin> set (filter_overlapping
      [demo_detection ''PERSON'' 5 8 2, demo_detection ''LOCATION'' 0 10 3,
       demo_detection ''PERSON'' 20 30 2]) \<and>
   (\<exists>a \<in> set (filter_overlapping
      [demo_detection ''PERSON'' 5 8 2, demo_detection ''LOCATION'' 0 10 3,
       demo_detection ''PERSON'' 20 30 2]).
      res_score (demo_detection ''PERSON'' 5 8 2) \<le> res_score a \<and>
      overlaps (demo_detection ''PERSON'' 5 8 2) a \<and>
      span (demo_detection ''PERSON'' 5 8 2) \<inter> span a \<noteq> {})"
proof -
  let ?rs = "[demo_detection ''PERSON'' 5 8 2, demo_detection ''LOCATION'' 0 10 3,
       demo_detection ''PERSON'' 20 30 2]"
  have out: "demo_detection ''PERSON'' 5 8 2 \<notin> set (filter_overlapping ?rs)"
    unfolding demo_filter by (simp add: demo_detection_def lit_def)
  have ne: "res_start (demo_detection ''PERSON'' 5 8 2) < res_end (demo_detection ''PERSON'' 5 8 2)"
    by (simp add: demo_detection_def)
  have all: "\<forall>a\<in>set (filter_overlapping ?rs). res_start a < res_end a"
    unfolding demo_filter by (simp add: demo_detection_def)
  have "\<exists>a\<in>set (filter_overlapping ?rs). res_score (demo_detection ''PERSON'' 5 8 2) \<le> res_score a \<and>
      overlaps (demo_detection ''PERSON'' 5 8 2) a \<and>
      (res_start (demo_detection ''PERSON'' 5 8 2) < res_end (demo_detection ''PERSON'' 5 8 2)
         \<and> res_start a < res_end a \<longrightarrow> span (demo_detection ''PERSON'' 5 8 2) \<inter> span a \<noteq> {})"
    by (rule filter_overlapping_greedy [of ?rs, THEN conjunct2, THEN conjunct2, THEN conjunct2,
          THEN conjunct2, THEN conjunct2, rule_format]) (simp_all add: out)
  then show ?thesis using out ne all by blast
qed

theorem excluded_empty_span_counterexample:
  "filter_overlapping [demo_detection ''LOCATION'' 0 10 3, demo_detection ''PERSON'' 5 5 2]
     = [demo_detection ''LOCATION'' 0 10 3] \<and>
   span (demo_detection ''PERSON'' 5 5 2) \<inter> span (demo_detection ''LOCATION'' 0 10 3) = {}"
  by (simp add: filter_overlapping_def sorted_reverse_def overlaps_def demo_detection_def span_def)

subsection \<open>The seed\<close>

lemma length_hex_fixed: "length (hex_fixed k n) = k"
  by (induction k arbitrary: n) simp_all

lemma take_hex_fixed: "take k (hex_fixed (k + m) n) = hex_fixed k (n div 16 ^ m)"
proof (induction m arbitrary: n)
  case 0
  then show ?case by (simp add: length_hex_fixed)
next
  case (Suc m)
  have "take k (hex_fixed (k + Suc m) n) = take k (hex_fixed (k + m) (n div 16))"
    by (simp add: length_hex_fixed)
  also have "\<dots> = hex_fixed k (n div 16 div 16 ^ m)" by (rule Suc)
  also have "n div 16 div 16 ^ m = n div 16 ^ Suc m" by (simp add: div_mult2_eq)
  finally show ?case .
qed

lemma hex_value_hex_char: "d < 16 \<Longrightarrow> hex_value (hex_char d) = Some (int d)"
  by (auto simp: hex_value_def hex_char_def)

lemma parse_hex_snoc:
  "parse_hex acc (xs @ [c]) =
     and_then (parse_hex acc xs)
       (\<lambda>a. case hex_value c of None \<Rightarrow> Inl ValueError | Some d \<Rightarrow> Inr (a * 16 + d))"
  by (induction xs arbitrary: acc) (auto split: option.splits)

lemma parse_hex_fixed:
  "parse_hex acc (hex_fixed k n) = Inr (acc * 16 ^ k + int (n mod 16 ^ k))"
proof (induction k arbitrary: n)
  case 0
  then show ?case by simp
next
  case (Suc k)
  show ?case
    by (simp add: parse_hex_snoc Suc hex_value_hex_char mod_mult2_eq algebra_simps)
qed

lemma digest_top_bound: "unat (w :: 256 word) div 16 ^ 48 < 16 ^ 16"
proof -
  have "unat w < 2 ^ 256" using unsigned_less [of w, where 'a = nat] by simp
  moreover have "(2::nat) ^ 256 = 16 ^ 16 * 16 ^ 48" by simp
  ultimately have "unat w < 16 ^ 16 * 16 ^ 48" by (simp only:)
  then show ?thesis by (rule less_mult_imp_div_less)
qed

lemma digest_top_bits: "uint (drop_bit 192 (w :: 256 word)) = int (unat w div 16 ^ 48)"
proof -
  have "unat (drop_bit 192 w) = unat w div 2 ^ 192"
    by (subst unat_drop_bit_eq) (simp only: drop_bit_eq_div)
  moreover have "(2::nat) ^ 192 = 16 ^ 48" by simp
  ultimately have "unat (drop_bit 192 w) = unat w div 16 ^ 48" by (simp only:)
  then show ?thesis by (simp only: uint_nat)
qed

lemma seed_of_digest:
  "int_base16 (py_slice_to (hexdigest w) 16) = Inr (uint (drop_bit 192 w))"
proof -
  have t: "py_slice_to (hexdigest w) 16 = take 16 (hex_fixed (16 + 48) (unat w))"
    by (simp add: py_slice_to_def slice_bound_def hexdigest_def length_hex_fixed)
  have ne: "hex_fixed 16 (unat w div 16 ^ 48) \<noteq> []"
    using length_hex_fixed [of 16 "unat w div 16 ^ 48"] by auto
  have "parse_hex 0 (hex_fixed 16 (unat w div 16 ^ 48)) = Inr (int (unat w div 16 ^ 48))"
    unfolding parse_hex_fixed using digest_top_bound [of w] by (simp only: mod_less) simp
  then show ?thesis
    unfolding t take_hex_fixed int_base16_def digest_top_bits using ne by (simp only: if_False)
qed

lemma compute_seed_eq:
  "compute_seed P self value entity_type =
     and_then (encode_utf8 (salt self @ str_lower P value @ entity_type))
       (\<lambda>bytes. Inr (uint (drop_bit 192 (sha256 P bytes))))"
  by (simp add: compute_seed_def Let_def seed_of_digest)

text \<open>
  Claim C9. The seed is a function of the salt, the value and the entity type alone (no
  other field of the object enters), and it is the first 64 bits of the SHA-256 digest
  of the UTF-8 encoding of salt, lower-cased value and entity type, read as an
  unsigned integer. (The encoding, hence the call, raises when the text holds a
  surrogate.)
\<close>

theorem compute_seed_first_64_bits:
  "compute_seed P self value entity_type =
     (case encode_utf8 (salt self @ str_lower P value @ entity_type) of
        Inl e \<Rightarrow> Inl e
      | Inr bytes \<Rightarrow> Inr (uint (drop_bit 192 (sha256 P bytes)))) \<and>
   (salt self' = salt self \<longrightarrow>
      compute_seed P self' value entity_type = compute_seed P self value entity_type)"
  by (simp add: compute_seed_eq and_then_def)

lemma demo_sha256: "sha256 demo_lib bytes = push_bit 192 (of_nat (length bytes)) + 1"
  by (simp add: demo_lib_def)

lemma demo_str_lower: "str_lower demo_lib = demo_lower"
  by (simp add: demo_lib_def)

lemma demo_salt: "salt (demo_self ds) = lit ''salt''"
  by (simp add: demo_self_def)

lemma demo_digest_top: "uint (drop_bit 192 (push_bit 192 13 + 1 :: 256 word)) = 13"
  by (simp add: drop_bit_eq_div push_bit_eq_mult uint_div_distrib uint_word_ariths)

theorem compute_seed_first_64_bits_witness:
  "compute_seed demo_lib (demo_self []) (lit ''Jan'') (lit ''PERSON'') = Inr 13"
proof -
  have e: "encode_utf8 (salt (demo_self []) @ str_lower demo_lib (lit ''Jan'') @ lit ''PERSON'')
      = Inr [115, 97, 108, 116, 106, 97, 110, 80, 69, 82, 83, 79, 78]"
    by (simp add: demo_salt demo_str_lower demo_lower_def lit_def encode_char_def)
  show ?thesis
    using compute_seed_first_64_bits [of demo_lib "demo_self []" "lit ''Jan''" "lit ''PERSON''" "demo_self []"]
    unfolding e by (simp add: demo_sha256 demo_digest_top)
qed

subsection \<open>The replacement loop\<close>

lemma and_then_Inr_iff:
  "and_then m f = Inr y \<longleftrightarrow> (\<exists>x. m = Inr x \<and> f x = Inr y)"
  by (cases m) simp_all

lemma prepare_step:
  assumes "prepare P self text (d # rest) (acc, m) = Inr out"
  shows "\<exists>m1 t. prepare P self text rest (acc @ [of_detection text d t], m1) = Inr out \<and>
           m1 (replacement_key P (of_detection text d t)) = Some t \<and>
           (\<forall>k. m k \<noteq> None \<longrightarrow> m1 k = m k)"
proof -
  let ?orig = "py_slice text (res_start d) (res_end d)"
  let ?key = "(str_lower P (strip P ?orig), res_entity_type d)"
  have key: "replacement_key P (of_detection text d t) = ?key" for t
    by (simp add: replacement_key_def of_detection_def)
  show ?thesis
  proof (cases "m ?key")
    case None
    then obtain g where g: "generate_replacement P self ?orig (res_entity_type d) = Inr g"
      using assms by (cases "generate_replacement P self ?orig (res_entity_type d)") (simp_all add: Let_def)
    define t where "t = (if res_entity_type d \<in> CASE_SENSITIVE_ENTITIES then match_casing P ?orig g else g)"
    have "prepare P self text rest (acc @ [of_detection text d t], m(?key \<mapsto> t)) = Inr out"
      using assms None g by (simp add: Let_def of_detection_def t_def)
    moreover have "\<forall>k. m k \<noteq> None \<longrightarrow> (m(?key \<mapsto> t)) k = m k" using None by auto
    ultimately show ?thesis unfolding key by (intro exI [of _ "m(?key \<mapsto> t)"] exI [of _ t]) simp
  next
    case (Some t)
    then have "prepare P self text rest (acc @ [of_detection text d t], m) = Inr out"
      using assms by (simp add: Let_def of_detection_def)
    then show ?thesis unfolding key using Some by (intro exI [of _ m] exI [of _ t]) simp
  qed
qed

lemma prepare_invariant:
  assumes "prepare P self text ds (acc, m) = Inr (reps, m')"
    and "\<forall>r\<in>set acc. m (replacement_key P r) = Some (rep_replacement r)"
  shows "(\<forall>r\<in>set reps. m' (replacement_key P r) = Some (rep_replacement r)) \<and>
         (\<exists>ts. length ts = length ds \<and> reps = acc @ map2 (of_detection text) ds ts)"
  using assms
proof (induction ds arbitrary: acc m)
  case Nil
  then show ?case by simp
next
  case (Cons d ds)
  obtain m1 t where s: "prepare P self text ds (acc @ [of_detection text d t], m1) = Inr (reps, m')"
    and k: "m1 (replacement_key P (of_detection text d t)) = Some t"
    and ext: "\<forall>k. m k \<noteq> None \<longrightarrow> m1 k = m k"
    using prepare_step [OF Cons.prems(1)] by blast
  have inv: "\<forall>r\<in>set (acc @ [of_detection text d t]). m1 (replacement_key P r) = Some (rep_replacement r)"
  proof
    fix r assume "r \<in> set (acc @ [of_detection text d t])"
    then consider "r \<in> set acc" | "r = of_detection text d t" by auto
    then show "m1 (replacement_key P r) = Some (rep_replacement r)"
    proof cases
      case 1
      then have "m (replacement_key P r) = Some (rep_replacement r)" using Cons.prems(2) by simp
      then show ?thesis using ext by (metis option.distinct(1))
    next
      case 2
      then show ?thesis using k by (simp add: of_detection_def)
    qed
  qed
  obtain ts where ts: "length ts = length ds"
      "reps = (acc @ [of_detection text d t]) @ map2 (of_detection text) ds ts"
    and all: "\<forall>r\<in>set reps. m' (replacement_key P r) = Some (rep_replacement r)"
    using Cons.IH [OF s inv] by blast
  have "length (t # ts) = length (d # ds) \<and> reps = acc @ map2 (of_detection text) (d # ds) (t # ts)"
    using ts by simp
  then show ?case using all by blast
qed

lemma pseudonymize_with_details_result:
  assumes "pseudonymize_with_details P self text = Inr res"
  shows "\<exists>ds ts m. analyze self text = Inr ds \<and> length ts = length ds \<and>
           replacements res = map2 (of_detection text) ds ts \<and>
           (\<forall>r\<in>set (replacements res). m (replacement_key P r) = Some (rep_replacement r)) \<and>
           original_text res = text \<and> pseudonymized_text res = rewrite text (replacements res)"
proof -
  obtain ds where a: "analyze self text = Inr ds"
    using assms by (auto simp: pseudonymize_with_details_def and_then_Inr_iff)
  obtain reps m where p: "prepare P self text ds ([], Map.empty) = Inr (reps, m)"
    and r: "res = \<lparr>original_text = text, pseudonymized_text = rewrite text reps, replacements = reps\<rparr>"
    using assms a by (auto simp: pseudonymize_with_details_def and_then_Inr_iff)
  show ?thesis
    using prepare_invariant [OF p] a r by auto
qed

lemma demo_fields:
  "str_lower demo_lib = demo_lower" "str_upper demo_lib = demo_upper"
  "char_isupper demo_lib = (\<lambda>c. 65 \<le> c \<and> c \<le> 90)"
  "char_islower demo_lib = (\<lambda>c. 97 \<le> c \<and> c \<le> 122)"
  "char_istitle demo_lib = (\<lambda>c. False)"
  "str_capitalize demo_lib = demo_capitalize" "char_isspace demo_lib = demo_isspace"
  "faker demo_lib = (\<lambda>loc seed method argument. Inr method)"
  by (simp_all add: demo_lib_def)

lemma demo_self_fields:
  "salt (demo_self ds) = lit ''salt''" "language (demo_self ds) = lit ''pl''"
  "locale_name (demo_self ds) = lit ''pl_PL''" "analyzer (demo_self ds) = (\<lambda>text lang. Inr ds)"
  by (simp_all add: demo_self_def)

lemma encode_utf8_ascii: "list_all (\<lambda>c. c < 128) s \<Longrightarrow> encode_utf8 s = Inr (map of_nat s)"
  by (induction s) (simp_all add: encode_char_def)

lemma compute_seed_ascii:
  "list_all (\<lambda>c. c < 128) (salt self @ str_lower P value @ entity_type) \<Longrightarrow>
   \<exists>seed. compute_seed P self value entity_type = Inr seed"
  by (simp add: compute_seed_eq encode_utf8_ascii)

lemma demo_lower_ascii: "list_all (\<lambda>c. c < 128) s \<Longrightarrow> list_all (\<lambda>c. c < 128) (demo_lower s)"
  by (induction s) (auto simp: demo_lower_def)

lemma demo_generate_custom:
  assumes "list_all (\<lambda>c. c < 128) original"
  shows "generate_replacement demo_lib (demo_self ds) original (lit ''CUSTOM'')
           = Inr (replicate (length original) 42)"
proof -
  have "list_all (\<lambda>c. c < 128) (salt (demo_self ds) @ str_lower demo_lib original @ lit ''CUSTOM'')"
    using demo_lower_ascii [OF assms] by (simp add: demo_self_fields demo_fields lit_def)
  then obtain seed where "compute_seed demo_lib (demo_self ds) original (lit ''CUSTOM'') = Inr seed"
    using compute_seed_ascii by blast
  then show ?thesis by (simp add: generate_replacement_def lit_def)
qed

lemma demo_generate_person:
  assumes "list_all (\<lambda>c. c < 128) original"
  shows "generate_replacement demo_lib (demo_self ds) original (lit ''PERSON'') = Inr (lit ''name'')"
proof -
  have "list_all (\<lambda>c. c < 128) (salt (demo_self ds) @ str_lower demo_lib original @ lit ''PERSON'')"
    using demo_lower_ascii [OF assms] by (simp add: demo_self_fields demo_fields lit_def)
  then obtain seed where "compute_seed demo_lib (demo_self ds) original (lit ''PERSON'') = Inr seed"
    using compute_seed_ascii by blast
  then show ?thesis by (simp add: generate_replacement_def demo_fields)
qed

lemma demo_analyze_custom:
  "analyze (demo_self [demo_detection ''CUSTOM'' 0 3 2, demo_detection ''CUSTOM'' 4 7 3]) text
     = Inr [demo_detection ''CUSTOM'' 4 7 3, demo_detection ''CUSTOM'' 0 3 2]"
  by (simp add: analyze_def demo_self_fields filter_overlapping_def sorted_reverse_def
        overlaps_def demo_detection_def)


lemma filter_loop_sorted:
  "sorted_wrt R (acc @ xs) \<Longrightarrow> sorted_wrt R (filter_loop acc xs)"
proof (induction xs arbitrary: acc)
  case Nil
  then show ?case by simp
next
  case (Cons x xs)
  have "sorted_wrt R (acc @ xs)" using Cons.prems by (auto simp: sorted_wrt_append)
  moreover have "sorted_wrt R ((acc @ [x]) @ xs)" using Cons.prems by simp
  ultimately show ?case using Cons.IH [of acc] Cons.IH [of "acc @ [x]"] by simp
qed

lemma filter_overlapping_sorted:
  "sorted_wrt (\<lambda>a b. res_score b \<le> res_score a) (filter_overlapping results)"
  unfolding filter_overlapping_eq
  by (rule filter_loop_sorted) (simp add: sorted_sorted_reverse)

lemma of_detection_fields:
  assumes "length ts = length ds"
  shows "map rep_start (map2 (of_detection text) ds ts) = map res_start ds"
    and "map rep_end (map2 (of_detection text) ds ts) = map res_end ds"
    and "map rep_score (map2 (of_detection text) ds ts) = map res_score ds"
    and "map rep_entity_type (map2 (of_detection text) ds ts) = map res_entity_type ds"
    and "map rep_original (map2 (of_detection text) ds ts)
           = map (\<lambda>d. py_slice text (res_start d) (res_end d)) ds"
  using assms [symmetric]
  by (induction ds ts rule: list_induct2; simp add: of_detection_def)+

text \<open>
  Claim C2, as amended. The replacements of the result are in the order in which the
  overlap resolver accepted the detections, that is by descending score (equal scores
  in the detector's order); they are not sorted by start offset.
\<close>

theorem replacements_in_acceptance_order:
  assumes "pseudonymize_with_details P self text = Inr res"
  shows "\<exists>accepted. analyze self text = Inr accepted \<and>
           map rep_start (replacements res) = map res_start accepted \<and>
           map rep_end (replacements res) = map res_end accepted \<and>
           map rep_score (replacements res) = map res_score accepted \<and>
           sorted_wrt (\<lambda>a b. rep_score b \<le> rep_score a) (replacements res)"
proof -
  obtain ds ts where a: "analyze self text = Inr ds" and l: "length ts = length ds"
    and r: "replacements res = map2 (of_detection text) ds ts"
    using pseudonymize_with_details_result [OF assms] by blast
  obtain results where "ds = filter_overlapping results"
    using a by (auto simp: analyze_def and_then_Inr_iff)
  then have "sorted_wrt (\<lambda>a b. res_score b \<le> res_score a) ds"
    by (simp add: filter_overlapping_sorted)
  then have "sorted_wrt (\<lambda>a b. b \<le> a) (map rep_score (replacements res))"
    unfolding r of_detection_fields(3) [OF l] by (simp add: sorted_wrt_map)
  then have "sorted_wrt (\<lambda>a b. rep_score b \<le> rep_score a) (replacements res)"
    by (simp add: sorted_wrt_map)
  then show ?thesis using a r of_detection_fields [OF l] by auto
qed

lemma demo_result_custom:
  "pseudonymize_with_details demo_lib
        (demo_self [demo_detection ''CUSTOM'' 0 3 2, demo_detection ''CUSTOM'' 4 7 3])
        (lit ''abc def'') =
     Inr \<lparr>original_text = lit ''abc def'', pseudonymized_text = lit ''*** ***'',
          replacements =
            [\<lparr>rep_start = 4, rep_end = 7, rep_original = lit ''def'', rep_replacement = lit ''***'',
              rep_entity_type = lit ''CUSTOM'', rep_score = 3\<rparr>,
             \<lparr>rep_start = 0, rep_end = 3, rep_original = lit ''abc'', rep_replacement = lit ''***'',
              rep_entity_type = lit ''CUSTOM'', rep_score = 2\<rparr>]\<rparr>"
proof -
  have s1: "py_slice (lit ''abc def'') 4 7 = lit ''def''" "py_slice (lit ''abc def'') 0 3 = lit ''abc''"
    by (simp_all add: py_slice_def slice_bound_def lit_def)
  have a: "list_all (\<lambda>c. c < 128) (lit ''def'')" "list_all (\<lambda>c. c < 128) (lit ''abc'')"
    by (simp_all add: lit_def)
  have k: "(str_lower demo_lib (strip demo_lib (lit ''def'')), lit ''CUSTOM'') \<noteq>
           (str_lower demo_lib (strip demo_lib (lit ''abc'')), lit ''CUSTOM'')"
    by (simp add: demo_fields strip_def demo_lower_def demo_isspace_def lit_def)
  have c: "lit ''CUSTOM'' \<notin> CASE_SENSITIVE_ENTITIES"
    by (simp add: CASE_SENSITIVE_ENTITIES_def lit_def)
  have g: "generate_replacement demo_lib (demo_self ds) (lit ''def'') (lit ''CUSTOM'') = Inr (lit ''***'')"
    "generate_replacement demo_lib (demo_self ds) (lit ''abc'') (lit ''CUSTOM'') = Inr (lit ''***'')" for ds
    using demo_generate_custom [OF a(1)] demo_generate_custom [OF a(2)] by (simp_all add: lit_def)
  have rw: "rewrite (lit ''abc def'')
      [\<lparr>rep_start = 4, rep_end = 7, rep_original = lit ''def'', rep_replacement = lit ''***'',
              rep_entity_type = lit ''CUSTOM'', rep_score = 3::nat\<rparr>,
             \<lparr>rep_start = 0, rep_end = 3, rep_original = lit ''abc'', rep_replacement = lit ''***'',
              rep_entity_type = lit ''CUSTOM'', rep_score = 2\<rparr>] = lit ''*** ***''"
    by (simp add: rewrite_def sorted_reverse_def splice_def py_slice_to_def py_slice_from_def
          slice_bound_def lit_def)
  show ?thesis
    unfolding pseudonymize_with_details_def demo_analyze_custom
    using k by (simp add: demo_detection_def s1 g c Let_def rw)
qed

theorem replacements_in_acceptance_order_witness:
  "\<exists>accepted. analyze (demo_self [demo_detection ''CUSTOM'' 0 3 2, demo_detection ''CUSTOM'' 4 7 3])
        (lit ''abc def'') = Inr accepted \<and>
     map res_start accepted = [4, 0] \<and> map res_score accepted = [3, 2]"
  using replacements_in_acceptance_order [OF demo_result_custom]
  by (auto simp: demo_analyze_custom)

theorem replacements_not_sorted_by_start_counterexample:
  "pseudonymize_with_details demo_lib
        (demo_self [demo_detection ''CUSTOM'' 0 3 2, demo_detection ''CUSTOM'' 4 7 3])
        (lit ''abc def'') =
     Inr \<lparr>original_text = lit ''abc def'', pseudonymized_text = lit ''*** ***'',
          replacements =
            [\<lparr>rep_start = 4, rep_end = 7, rep_original = lit ''def'', rep_replacement = lit ''***'',
              rep_entity_type = lit ''CUSTOM'', rep_score = 3\<rparr>,
             \<lparr>rep_start = 0, rep_end = 3, rep_original = lit ''abc'', rep_replacement = lit ''***'',
              rep_entity_type = lit ''CUSTOM'', rep_score = 2\<rparr>]\<rparr> \<and>
   \<not> sorted [4, 0 :: int]"
  using demo_result_custom by simp

text \<open>
  Claim C3. Within one call the replacements correspond, one to one and in order, to
  the accepted detections (same offsets and entity type, the original being the
  substring of the text), and any two of them with the same key (original stripped and
  lower-cased, entity type) carry the same replacement text.
\<close>

theorem same_key_same_replacement:
  assumes "pseudonymize_with_details P self text = Inr res"
  shows "(\<exists>accepted. analyze self text = Inr accepted \<and>
            map rep_start (replacements res) = map res_start accepted \<and>
            map rep_end (replacements res) = map res_end accepted \<and>
            map rep_entity_type (replacements res) = map res_entity_type accepted \<and>
            map rep_original (replacements res)
              = map (\<lambda>d. py_slice text (res_start d) (res_end d)) accepted) \<and>
         (\<forall>r1\<in>set (replacements res). \<forall>r2\<in>set (replacements res).
            replacement_key P r1 = replacement_key P r2 \<longrightarrow>
            rep_replacement r1 = rep_replacement r2)"
proof -
  obtain ds ts m where a: "analyze self text = Inr ds" and l: "length ts = length ds"
    and r: "replacements res = map2 (of_detection text) ds ts"
    and inv: "\<forall>r\<in>set (replacements res). m (replacement_key P r) = Some (rep_replacement r)"
    using pseudonymize_with_details_result [OF assms] by blast
  have same: "rep_replacement r1 = rep_replacement r2"
    if "r1 \<in> set (replacements res)" "r2 \<in> set (replacements res)"
      "replacement_key P r1 = replacement_key P r2" for r1 r2
  proof -
    have "m (replacement_key P r1) = Some (rep_replacement r1)"
      "m (replacement_key P r2) = Some (rep_replacement r2)"
      using inv that(1,2) by simp_all
    then show ?thesis using that(3) by simp
  qed
  have corr: "\<exists>accepted. analyze self text = Inr accepted \<and>
            map rep_start (replacements res) = map res_start accepted \<and>
            map rep_end (replacements res) = map res_end accepted \<and>
            map rep_entity_type (replacements res) = map res_entity_type accepted \<and>
            map rep_original (replacements res)
              = map (\<lambda>d. py_slice text (res_start d) (res_end d)) accepted"
    using a of_detection_fields [OF l] unfolding r by blast
  show ?thesis using same by (intro conjI corr) blast
qed

lemma demo_result_person:
  "pseudonymize_with_details demo_lib
        (demo_self [demo_detection ''PERSON'' 0 3 2, demo_detection ''PERSON'' 4 7 3])
        (lit ''Jan jan'') =
     Inr \<lparr>original_text = lit ''Jan jan'', pseudonymized_text = lit ''name name'',
          replacements =
            [\<lparr>rep_start = 4, rep_end = 7, rep_original = lit ''jan'', rep_replacement = lit ''name'',
              rep_entity_type = lit ''PERSON'', rep_score = 3\<rparr>,
             \<lparr>rep_start = 0, rep_end = 3, rep_original = lit ''Jan'', rep_replacement = lit ''name'',
              rep_entity_type = lit ''PERSON'', rep_score = 2\<rparr>]\<rparr>"
proof -
  have an: "analyze (demo_self [demo_detection ''PERSON'' 0 3 2, demo_detection ''PERSON'' 4 7 3]) t0
     = Inr [demo_detection ''PERSON'' 4 7 3, demo_detection ''PERSON'' 0 3 2]" for t0
    by (simp add: analyze_def demo_self_fields filter_overlapping_def sorted_reverse_def
        overlaps_def demo_detection_def)
  have s1: "py_slice (lit ''Jan jan'') 4 7 = lit ''jan''" "py_slice (lit ''Jan jan'') 0 3 = lit ''Jan''"
    by (simp_all add: py_slice_def slice_bound_def lit_def)
  have a: "list_all (\<lambda>c. c < 128) (lit ''jan'')"
    by (simp_all add: lit_def)
  have k: "str_lower demo_lib (strip demo_lib (lit ''Jan'')) = str_lower demo_lib (strip demo_lib (lit ''jan''))"
    by (simp add: demo_fields strip_def demo_lower_def demo_isspace_def lit_def)
  have c: "lit ''PERSON'' \<in> CASE_SENSITIVE_ENTITIES"
    by (simp add: CASE_SENSITIVE_ENTITIES_def)
  have mc: "match_casing demo_lib (lit ''jan'') (lit ''name'') = lit ''name''"
    by (simp add: match_casing_def demo_fields str_isupper_def split_def demo_isspace_def lit_def
          py_slice_from_def slice_bound_def)
  have rw: "rewrite (lit ''Jan jan'')
      [\<lparr>rep_start = 4, rep_end = 7, rep_original = lit ''jan'', rep_replacement = lit ''name'',
              rep_entity_type = lit ''PERSON'', rep_score = 3::nat\<rparr>,
             \<lparr>rep_start = 0, rep_end = 3, rep_original = lit ''Jan'', rep_replacement = lit ''name'',
              rep_entity_type = lit ''PERSON'', rep_score = 2\<rparr>] = lit ''name name''"
    by (simp add: rewrite_def sorted_reverse_def splice_def py_slice_to_def py_slice_from_def
          slice_bound_def lit_def)
  show ?thesis
    unfolding pseudonymize_with_details_def an
    by (simp add: demo_detection_def s1 demo_generate_person [OF a] c mc k Let_def rw)
qed

theorem same_key_same_replacement_witness:
  "replacement_key demo_lib
      \<lparr>rep_start = 4, rep_end = 7, rep_original = lit ''jan'', rep_replacement = lit ''name'',
        rep_entity_type = lit ''PERSON'', rep_score = 3 :: nat\<rparr>
    = replacement_key demo_lib
      \<lparr>rep_start = 0, rep_end = 3, rep_original = lit ''Jan'', rep_replacement = lit ''name'',
        rep_entity_type = lit ''PERSON'', rep_score = 2 :: nat\<rparr> \<and>
   (\<exists>accepted. analyze (demo_self [demo_detection ''PERSON'' 0 3 2, demo_detection ''PERSON'' 4 7 3])
        (lit ''Jan jan'') = Inr accepted \<and> map res_start accepted = [4, 0])"
proof -
  have k: "str_lower demo_lib (strip demo_lib (lit ''Jan'')) = str_lower demo_lib (strip demo_lib (lit ''jan''))"
    by (simp add: demo_fields strip_def demo_lower_def demo_isspace_def lit_def)
  show ?thesis
    using same_key_same_replacement [OF demo_result_person] k
    by (auto simp: replacement_key_def)
qed

subsection \<open>The rewriting of the text\<close>











subsection \<open>The casing matcher\<close>

lemma split_acc_nonempty: "[] \<notin> set (split_acc sp cur s)"
  by (induction s arbitrary: cur) auto

lemma split_nonempty: "w \<in> set (split P s) \<Longrightarrow> w \<noteq> []"
  using split_acc_nonempty [of "char_isspace P" "[]" s] by (auto simp: split_def)

lemma split_acc_chars: "w \<in> set (split_acc sp cur s) \<Longrightarrow> set w \<subseteq> set cur \<union> set s"
proof (induction s arbitrary: cur)
  case Nil
  then show ?case by (auto split: if_splits)
next
  case (Cons c cs)
  show ?case
  proof (cases "sp c")
    case True
    then have "w = cur \<or> w \<in> set (split_acc sp [] cs)"
      using Cons.prems by (auto split: if_splits)
    then show ?thesis using Cons.IH [of "[]"] by auto
  next
    case False
    then have "w \<in> set (split_acc sp (cur @ [c]) cs)" using Cons.prems by simp
    then show ?thesis using Cons.IH [of "cur @ [c]"] by auto
  qed
qed

lemma split_acc_length: "w \<in> set (split_acc sp cur s) \<Longrightarrow> length w \<le> length cur + length s"
proof (induction s arbitrary: cur)
  case Nil
  then show ?case by (auto split: if_splits)
next
  case (Cons c cs)
  show ?case
  proof (cases "sp c")
    case True
    then have "w = cur \<or> w \<in> set (split_acc sp [] cs)"
      using Cons.prems by (auto split: if_splits)
    then show ?thesis using Cons.IH [of "[]"] by auto
  next
    case False
    then have "w \<in> set (split_acc sp (cur @ [c]) cs)" using Cons.prems by simp
    then show ?thesis using Cons.IH [of "cur @ [c]"] by auto
  qed
qed

lemma py_slice_from_1: "py_slice_from w 1 = drop 1 w"
  by (cases w) (simp_all add: py_slice_from_def slice_bound_def)

lemma capitalize_words:
  "map (\<lambda>w. if w \<noteq> [] then str_capitalize P w else w) (split P s) = map (str_capitalize P) (split P s)"
  by (rule map_cong) (auto dest: split_nonempty)

lemma title_test:
  "list_all (\<lambda>w. str_isupper P [w ! 0] \<and> str_islower P (py_slice_from w 1))
       (filter (\<lambda>w. length w > 1) words)
   \<longleftrightarrow> (\<forall>w\<in>set words. length w > 1 \<longrightarrow> str_isupper P [w ! 0] \<and> str_islower P (drop 1 w))"
  by (auto simp: list_all_iff py_slice_from_1)

lemma islower_not_upper_word:
  assumes low: "str_islower P source" and w: "w \<in> set (split P source)" and len: "length w > 1"
  shows "\<not> str_isupper P source \<and> \<not> str_isupper P [w ! 0]"
proof -
  have "length w \<le> length source"
    using split_acc_length [of w "char_isspace P" "[]" source] w by (simp add: split_def)
  then have l2: "length source \<noteq> 1" using len by simp
  then have no: "\<forall>c\<in>set source. \<not> char_isupper P c" and some: "\<exists>c\<in>set source. char_islower P c"
    using low by (auto simp: str_islower_def list_ex_iff)
  have "set w \<subseteq> set source"
    using split_acc_chars [of w "char_isspace P" "[]" source] w by (simp add: split_def)
  moreover have "w ! 0 \<in> set w" using len by (cases w) simp_all
  ultimately have "\<not> char_isupper P (w ! 0)" using no by blast
  then have "\<not> str_isupper P [w ! 0]" by (simp add: str_isupper_def)
  moreover have "\<not> str_isupper P source"
    using l2 some by (auto simp: str_isupper_def list_ex_iff)
  ultimately show ?thesis by simp
qed

text \<open>
  Claim C6, as amended. If the original is upper-case, the result is the replacement
  upper-cased. Otherwise, if the original has at least one word and each of its words
  of more than one character has an upper-case first character and a lower-case rest,
  the result is the words of the replacement, each capitalized, joined by single spaces.
  Otherwise the replacement is returned unchanged; in particular when the original is
  lower-case and has a word of more than one character.
\<close>

theorem match_casing_rules:
  "(str_isupper P source \<longrightarrow> match_casing P source replacement = str_upper P replacement) \<and>
   (\<not> str_isupper P source \<and> split P source \<noteq> [] \<and>
      (\<forall>w\<in>set (split P source). length w > 1 \<longrightarrow>
          str_isupper P [w ! 0] \<and> str_islower P (drop 1 w)) \<longrightarrow>
      match_casing P source replacement
        = join (lit '' '') (map (str_capitalize P) (split P replacement))) \<and>
   (\<not> str_isupper P source \<and>
      (split P source = [] \<or>
       (\<exists>w\<in>set (split P source). length w > 1 \<and>
          \<not> (str_isupper P [w ! 0] \<and> str_islower P (drop 1 w)))) \<longrightarrow>
      match_casing P source replacement = replacement) \<and>
   (str_islower P source \<and> (\<exists>w\<in>set (split P source). length w > 1) \<longrightarrow>
      match_casing P source replacement = replacement)"
proof (intro conjI impI)
  assume "str_isupper P source"
  then show "match_casing P source replacement = str_upper P replacement"
    by (simp add: match_casing_def)
next
  assume "\<not> str_isupper P source \<and> split P source \<noteq> [] \<and>
      (\<forall>w\<in>set (split P source). length w > 1 \<longrightarrow>
          str_isupper P [w ! 0] \<and> str_islower P (drop 1 w))"
  then show "match_casing P source replacement
        = join (lit '' '') (map (str_capitalize P) (split P replacement))"
    unfolding match_casing_def Let_def title_test capitalize_words by simp
next
  assume "\<not> str_isupper P source \<and>
      (split P source = [] \<or>
       (\<exists>w\<in>set (split P source). length w > 1 \<and>
          \<not> (str_isupper P [w ! 0] \<and> str_islower P (drop 1 w))))"
  then show "match_casing P source replacement = replacement"
    unfolding match_casing_def Let_def title_test by auto
next
  assume a: "str_islower P source \<and> (\<exists>w\<in>set (split P source). length w > 1)"
  then obtain w where w: "w \<in> set (split P source)" "length w > 1" by blast
  have "\<not> str_isupper P source" "\<not> str_isupper P [w ! 0]"
    using islower_not_upper_word [of P source w] a w by simp_all
  then show "match_casing P source replacement = replacement"
    unfolding match_casing_def Let_def title_test using w by auto
qed

lemma demo_split:
  "split demo_lib (lit ''JAN'') = [lit ''JAN'']"
  "split demo_lib (lit ''Jan Kowalski'') = [lit ''Jan'', lit ''Kowalski'']"
  "split demo_lib (lit ''anna  nowak'') = [lit ''anna'', lit ''nowak'']"
  "split demo_lib (lit ''jan'') = [lit ''jan'']"
  "split demo_lib (lit '' '') = []"
  by (simp_all add: split_def demo_fields demo_isspace_def lit_def)

theorem match_casing_rules_witness:
  "match_casing demo_lib (lit ''JAN'') (lit ''anna  nowak'') = lit ''ANNA  NOWAK'' \<and>
   match_casing demo_lib (lit ''Jan Kowalski'') (lit ''anna  nowak'') = lit ''Anna Nowak'' \<and>
   match_casing demo_lib (lit ''jan'') (lit ''anna  nowak'') = lit ''anna  nowak''"
proof -
  have up: "str_isupper demo_lib (lit ''JAN'')"
    by (simp add: str_isupper_def demo_fields lit_def)
  have title: "\<not> str_isupper demo_lib (lit ''Jan Kowalski'') \<and> split demo_lib (lit ''Jan Kowalski'') \<noteq> [] \<and>
      (\<forall>w\<in>set (split demo_lib (lit ''Jan Kowalski'')). length w > 1 \<longrightarrow>
          str_isupper demo_lib [w ! 0] \<and> str_islower demo_lib (drop 1 w))"
    unfolding demo_split by (simp add: str_isupper_def str_islower_def demo_fields lit_def)
  have low: "str_islower demo_lib (lit ''jan'') \<and> (\<exists>w\<in>set (split demo_lib (lit ''jan'')). length w > 1)"
    unfolding demo_split by (simp add: str_islower_def demo_fields lit_def)
  have v1: "str_upper demo_lib (lit ''anna  nowak'') = lit ''ANNA  NOWAK''"
    by (simp add: demo_fields demo_upper_def lit_def)
  have v2: "join (lit '' '') (map (str_capitalize demo_lib) (split demo_lib (lit ''anna  nowak'')))
      = lit ''Anna Nowak''"
    unfolding demo_split by (simp add: demo_fields demo_capitalize_def demo_upper_def demo_lower_def lit_def)
  note r = match_casing_rules [of demo_lib _ "lit ''anna  nowak''"]
  show ?thesis
    using r [of "lit ''JAN''"] r [of "lit ''Jan Kowalski''"] r [of "lit ''jan''"] up title low
    unfolding v1 v2 by blast
qed

theorem match_casing_no_words_counterexample:
  "\<not> str_isupper demo_lib (lit '' '') \<and>
   list_all (\<lambda>w. str_isupper demo_lib [w ! 0] \<and> str_islower demo_lib (drop 1 w))
     (filter (\<lambda>w. length w > 1) (split demo_lib (lit '' ''))) \<and>
   match_casing demo_lib (lit '' '') (lit ''anna'') = lit ''anna'' \<and>
   join (lit '' '') (map (str_capitalize demo_lib) (split demo_lib (lit ''anna''))) = lit ''Anna''"
  by (simp add: match_casing_def str_isupper_def split_def demo_fields demo_isspace_def
        demo_capitalize_def demo_upper_def demo_lower_def lit_def)

end
